theory Spec2Isabelle
  imports Complex_Main "HOL-Library.Word"
begin

section \<open>Numeric tolerance utilities (src/core/math\_utils.h)\<close>

subsection \<open>The \<open>double\<close> values the utilities compute with\<close>

text \<open>
  A C++ \<open>double\<close> is a finite number, one of the two infinities, or NaN. The finite
  doubles are the multiples \<open>m * 2 ^ e\<close> with \<open>|m| < 2 ^ 53\<close>, \<open>e \<ge> - 1074\<close> and
  magnitude below \<open>2 ^ 1024\<close>; \<open>Fin x\<close> carries the number itself. The result of an
  arithmetic operation on finite operands is the exact result rounded to the nearest
  double, ties to even, and an infinity beyond the largest double (IEEE 754, the default
  rounding); the special values follow IEEE 754 too. The sign of zero is not kept:
  \<open>Fin 0\<close> stands for the positive zero, and a negative zero only swaps the sign of the
  infinity a division by it yields.
\<close>

datatype double = Fin real | PInf | NInf | NaN

text \<open>\<open>a < b\<close> and \<open>a <= b\<close> on doubles: false as soon as an operand is NaN.\<close>

fun dless :: "double \<Rightarrow> double \<Rightarrow> bool" where
  "dless NaN _ = False"
| "dless _ NaN = False"
| "dless (Fin x) (Fin y) = (x < y)"
| "dless _ NInf = False"
| "dless NInf _ = True"
| "dless PInf _ = False"
| "dless (Fin x) PInf = True"

fun dle :: "double \<Rightarrow> double \<Rightarrow> bool" where
  "dle NaN _ = False"
| "dle _ NaN = False"
| "dle (Fin x) (Fin y) = (x \<le> y)"
| "dle NInf _ = True"
| "dle _ NInf = False"
| "dle _ PInf = True"
| "dle PInf (Fin y) = False"

text \<open>\<open>std::abs\<close>.\<close>

fun dabs :: "double \<Rightarrow> double" where
  "dabs (Fin x) = Fin \<bar>x\<bar>"
| "dabs PInf = PInf"
| "dabs NInf = PInf"
| "dabs NaN = NaN"

text \<open>\<open>std::max(a, b)\<close> is \<open>(a < b) ? b : a\<close>.\<close>

definition dmax :: "double \<Rightarrow> double \<Rightarrow> double" where
  "dmax a b = (if dless a b then b else a)"

fun dneg :: "double \<Rightarrow> double" where
  "dneg (Fin x) = Fin (- x)"
| "dneg PInf = NInf"
| "dneg NInf = PInf"
| "dneg NaN = NaN"

subsection \<open>Rounding to the nearest double\<close>

text \<open>Rounding to the nearest integer, a tie to the even one.\<close>

definition rhe :: "real \<Rightarrow> int" where
  "rhe q =
     (let f = \<lfloor>q\<rfloor>; r = q - of_int f
      in if r < 1 / 2 then f else if 1 / 2 < r then f + 1 else if even f then f else f + 1)"

text \<open>
  The binary exponent of a number \<open>x \<ge> 0\<close>: the \<open>e\<close> with \<open>2 ^ e \<le> x < 2 ^ (e + 1)\<close>,
  kept between the exponent of the subnormal numbers, \<open>- 1022\<close>, and 1024, where the
  doubles end. It is found by halving or doubling.
\<close>

function expo_up :: "real \<Rightarrow> int \<Rightarrow> int" where
  "expo_up x e = (if 2 \<le> x \<and> e < 1024 then expo_up (x / 2) (e + 1) else e)"
  by pat_completeness auto
termination
  by (relation "measure (\<lambda>(x, e). nat (1024 - e))") auto

function expo_down :: "real \<Rightarrow> int \<Rightarrow> int" where
  "expo_down x e = (if x < 1 \<and> - 1022 < e then expo_down (2 * x) (e - 1) else e)"
  by pat_completeness auto
termination
  by (relation "measure (\<lambda>(x, e). nat (e + 1022))") auto

declare expo_up.simps [simp del]

declare expo_down.simps [simp del]

definition binade :: "real \<Rightarrow> int" where
  "binade x = (if 1 \<le> x then expo_up x 0 else expo_down x 0)"

text \<open>
  The nearest double of a number \<open>x \<ge> 0\<close>: the nearest multiple of the unit in the
  last place, \<open>2 ^ (e - 52)\<close>, and infinity when that is \<open>2 ^ 1024\<close> or more.
\<close>

definition round_val :: "real \<Rightarrow> real" where
  "round_val x = of_int (rhe (x / 2 powi (binade x - 52))) * 2 powi (binade x - 52)"

definition round_pos :: "real \<Rightarrow> double" where
  "round_pos x = (if 2 ^ 1024 \<le> round_val x then PInf else Fin (round_val x))"

text \<open>The nearest double of any number; rounding is symmetric.\<close>

definition rnd :: "real \<Rightarrow> double" where
  "rnd x = (if x < 0 then dneg (round_pos (- x)) else round_pos x)"

text \<open>The numbers that are doubles.\<close>

definition is_double :: "real \<Rightarrow> bool" where
  "is_double x = (rnd x = Fin x)"

subsection \<open>Arithmetic\<close>

text \<open>\<open>a - b\<close>: the difference of two equal infinities is NaN.\<close>

fun dsub :: "double \<Rightarrow> double \<Rightarrow> double" where
  "dsub NaN _ = NaN"
| "dsub _ NaN = NaN"
| "dsub (Fin x) (Fin y) = rnd (x - y)"
| "dsub PInf PInf = NaN"
| "dsub NInf NInf = NaN"
| "dsub PInf _ = PInf"
| "dsub NInf _ = NInf"
| "dsub (Fin x) PInf = NInf"
| "dsub (Fin x) NInf = PInf"

text \<open>\<open>a * b\<close>: zero times an infinity is NaN.\<close>

fun dsigned_inf :: "bool \<Rightarrow> double" where
  "dsigned_inf negative = (if negative then NInf else PInf)"

fun dmul :: "double \<Rightarrow> double \<Rightarrow> double" where
  "dmul NaN _ = NaN"
| "dmul _ NaN = NaN"
| "dmul (Fin x) (Fin y) = rnd (x * y)"
| "dmul (Fin x) PInf = (if x = 0 then NaN else dsigned_inf (x < 0))"
| "dmul (Fin x) NInf = (if x = 0 then NaN else dsigned_inf (0 < x))"
| "dmul PInf (Fin y) = (if y = 0 then NaN else dsigned_inf (y < 0))"
| "dmul NInf (Fin y) = (if y = 0 then NaN else dsigned_inf (0 < y))"
| "dmul PInf PInf = PInf"
| "dmul NInf NInf = PInf"
| "dmul PInf NInf = NInf"
| "dmul NInf PInf = NInf"

text \<open>
  \<open>a / b\<close>. Nothing traps: a nonzero finite number over zero is an infinity, zero
  over zero and infinity over infinity are NaN.
\<close>

fun ddiv :: "double \<Rightarrow> double \<Rightarrow> double" where
  "ddiv NaN _ = NaN"
| "ddiv _ NaN = NaN"
| "ddiv (Fin x) (Fin y) =
     (if y \<noteq> 0 then rnd (x / y)
      else if x = 0 then NaN
      else dsigned_inf (x < 0))"
| "ddiv (Fin x) _ = Fin 0"
| "ddiv PInf (Fin y) = dsigned_inf (y < 0)"
| "ddiv NInf (Fin y) = dsigned_inf (0 \<le> y)"
| "ddiv _ _ = NaN"

text \<open>\<open>std::trunc\<close>: rounding towards zero, which is exact (the integer part of a double
  is a double); infinities and NaN are returned as they are.\<close>

definition trunc_real :: "real \<Rightarrow> int" where
  "trunc_real x = (if 0 \<le> x then \<lfloor>x\<rfloor> else \<lceil>x\<rceil>)"

fun dtrunc :: "double \<Rightarrow> double" where
  "dtrunc (Fin x) = Fin (of_int (trunc_real x))"
| "dtrunc d = d"

subsection \<open>The comparisons\<close>

text \<open>\<open>constexpr double Eps = 1e-7\<close>: the double nearest to the decimal literal.\<close>

definition Eps :: double where
  "Eps = rnd (1 / 10 ^ 7)"

definition are_equal :: "double \<Rightarrow> double \<Rightarrow> bool" where
  "are_equal a b =
     (let eps_scale = dmax (Fin 1) (dmax (dabs a) (dabs b))
      in dle (dabs (dsub a b)) (dmul Eps eps_scale))"

definition is_multiple_of :: "double \<Rightarrow> double \<Rightarrow> bool" where
  "is_multiple_of v factor =
     (let ratio = ddiv v factor
      in are_equal ratio (dtrunc ratio))"

definition less_or_equal :: "double \<Rightarrow> double \<Rightarrow> bool" where
  "less_or_equal a b = (are_equal a b \<or> dless a b)"

definition are_ordered :: "double \<Rightarrow> double \<Rightarrow> double \<Rightarrow> bool" where
  "are_ordered a b c = (less_or_equal a b \<and> less_or_equal b c)"

definition deg2rad :: "real \<Rightarrow> real" where
  "deg2rad angle_deg = angle_deg * pi / 180"

definition rad2deg :: "real \<Rightarrow> real" where
  "rad2deg angle_rad = angle_rad * 180 / pi"

subsection \<open>\<open>ge_pow\<close>\<close>

text \<open>
  \<open>template <unsigned N> constexpr int ge_pow(int i)\<close>. The accumulator \<open>ge_p\<close> and
  the argument are 32-bit \<open>int\<close>s, compared as signed numbers; in \<open>ge_p *= N\<close> the
  \<open>int\<close> is converted to \<open>unsigned\<close>, multiplied modulo \<open>2 ^ 32\<close> and converted
  back, which is the multiplication of \<open>32 word\<close>. The loop has no bound of its own, so
  not returning is the value \<open>None\<close>.
\<close>

partial_function (option) ge_pow_loop :: "32 word \<Rightarrow> 32 word \<Rightarrow> 32 word \<Rightarrow> 32 word option" where
  "ge_pow_loop N i ge_p = (if ge_p <s i then ge_pow_loop N i (ge_p * N) else Some ge_p)"

declare ge_pow_loop.simps [code]

definition ge_pow :: "32 word \<Rightarrow> 32 word \<Rightarrow> 32 word option" where
  "ge_pow N i = ge_pow_loop N i 1"

section \<open>The map viewer (src/ros/rviz\_grid\_viewer.h)\<close>

text \<open>
  Modelled from the spec: \<open>GridMap\<close> and \<open>GridCell\<close>, declared in
  \<open>core/maps/grid_map.h\<close>, which is not among the sources. A map owns a grid of cells,
  rows by columns, and exposes \<open>width()\<close>, \<open>height()\<close>, \<open>scale()\<close>,
  \<open>map_center_x()\<close>, \<open>map_center_y()\<close> and \<open>cells()\<close> (row-major iteration); a cell is
  read through \<open>value()\<close> only, which is \<open>- 1\<close> for an unknown cell and a number in
  \<open>[0, 1]\<close> otherwise. So a map is the record of these readings and a cell is its
  \<open>value()\<close>.
\<close>

record GridMap =
  width :: nat
  height :: nat
  scale :: real
  map_center_x :: int
  map_center_y :: int
  cells :: "real list list"

text \<open>The fields of \<open>nav_msgs::OccupancyGrid\<close> that the viewer fills; \<open>data\<close> is \<open>int8[]\<close>.\<close>

record MapMetaData =
  map_load_time :: real
  resolution :: real
  info_width :: nat
  info_height :: nat
  origin_position_x :: real
  origin_position_y :: real
  origin_position_z :: real

record OccupancyGrid =
  info :: MapMetaData
  data :: "8 word list"

text \<open>
  The viewer's state. \<open>map_pub\<close> is the publisher, modelled by the messages published so
  far; times are seconds.
\<close>

record RvizGridViewer =
  map_pub :: "OccupancyGrid list"
  last_pub_time :: real
  map_publishing_rate :: real

text \<open>
  The conversion of a \<open>double\<close> to \<open>int\<close> truncates towards zero; it is undefined, here
  \<open>None\<close>, for an infinity, NaN or a number whose integer part is no \<open>int\<close>.
\<close>

definition double_to_int :: "double \<Rightarrow> int option" where
  "double_to_int d =
     (case d of
        Fin p \<Rightarrow>
          if - (2 ^ 31) \<le> trunc_real p \<and> trunc_real p < 2 ^ 31 then Some (trunc_real p)
          else None
      | _ \<Rightarrow> None)"

text \<open>
  \<open>int cell_value = cell->value() == -1 ? -1 : cell->value() * 100;\<close> The product is a
  product of doubles, rounded, and then converted to \<open>int\<close>.
\<close>

definition cell_value :: "real \<Rightarrow> int option" where
  "cell_value v = (if v = - 1 then Some (- 1) else double_to_int (dmul (Fin v) (Fin 100)))"

text \<open>The two nested loops; \<open>push_back\<close> converts the \<open>int\<close> to \<open>int8\<close>.\<close>

definition push_cell :: "8 word list option \<Rightarrow> real \<Rightarrow> 8 word list option" where
  "push_cell d cell =
     (case d of
        None \<Rightarrow> None
      | Some xs \<Rightarrow>
          (case cell_value cell of
             None \<Rightarrow> None
           | Some i \<Rightarrow> Some (xs @ [word_of_int i])))"

definition push_row :: "8 word list option \<Rightarrow> real list \<Rightarrow> 8 word list option" where
  "push_row d row = foldl push_cell d row"

definition map_data :: "GridMap \<Rightarrow> 8 word list option" where
  "map_data m = foldl push_row (Some []) (cells m)"

text \<open>
  \<open>on_map_update\<close>. The three readings of \<open>ros::Time::now()\<close> are the arguments
  \<open>now0\<close> (the rate check), \<open>now1\<close> (\<open>map_load_time\<close>) and \<open>now2\<close>
  (\<open>_last_pub_time\<close>). The result is the viewer after the call, or \<open>None\<close> when a cell's
  conversion to \<open>int\<close> is undefined.
\<close>

definition on_map_update ::
  "real \<Rightarrow> real \<Rightarrow> real \<Rightarrow> GridMap \<Rightarrow> RvizGridViewer \<Rightarrow> RvizGridViewer option" where
  "on_map_update now0 now1 now2 m v =
     (if now0 - last_pub_time v < map_publishing_rate v then Some v
      else
        (case map_data m of
           None \<Rightarrow> None
         | Some d \<Rightarrow>
             let map_msg = \<lparr> info = \<lparr> map_load_time = now1,
                                       resolution = scale m,
                                       info_width = width m,
                                       info_height = height m,
                                       origin_position_x = - scale m * of_int (map_center_x m),
                                       origin_position_y = - scale m * of_int (map_center_y m),
                                       origin_position_z = 0 \<rparr>,
                             data = d \<rparr>
             in Some (v \<lparr> map_pub := map_pub v @ [map_msg], last_pub_time := now2 \<rparr>)))"

text \<open>A two-cell map, one cell unknown and one with the double nearest to 0.3 as its
  value, and a viewer that publishes at most every five seconds and last published at
  time 0.\<close>

definition demo_map :: GridMap where
  "demo_map = \<lparr> width = 2, height = 1, scale = 1, map_center_x = 1, map_center_y = 0,
                  cells = [ [- 1, 5404319552844595 / 18014398509481984] ] \<rparr>"

definition demo_viewer :: RvizGridViewer where
  "demo_viewer = \<lparr> map_pub = [], last_pub_time = 0, map_publishing_rate = 5 \<rparr>"

section \<open>The laser scan generator\<close>

text \<open>
  \<open>utils/data_generation/laser_scan_generator.h\<close>, \<open>core/robot_pose.h\<close> and the sensor
  data types are not among the sources; only the generator's test is. This section
  follows sections 3, 4.4, 4.5 and 7 of the specification.
\<close>

text \<open>Modelled from the spec: \<open>RobotPose\<close> (\<open>core/robot_pose.h\<close>), world coordinates
  \<open>x\<close>, \<open>y\<close> and a heading \<open>theta\<close> in radians. The fields carry a prefix, here and in
  \<open>ScanPoint\<close>, to leave \<open>x\<close>, \<open>y\<close> and \<open>range\<close> to their usual readings.\<close>

record RobotPose =
  rp_x :: real
  rp_y :: real
  rp_theta :: real

text \<open>Modelled from the spec: \<open>LaserScannerParams\<close>, \<open>{max_range; angle_step;
  max_angle}\<close>.\<close>

record LaserScannerParams =
  max_range :: real
  angle_step :: real
  max_angle :: real

text \<open>Modelled from the spec: \<open>ScanPoint\<close>, \<open>{range; angle; is_occupied}\<close>.\<close>

record ScanPoint =
  sp_range :: real
  sp_angle :: real
  sp_is_occupied :: bool

text \<open>Modelled from the spec: the construction of the generator's parameters, which
  rejects \<open>angle_step \<le> 0\<close> and \<open>max_range \<le> 0\<close> (section 7).\<close>

definition make_LaserScannerParams :: "real \<Rightarrow> real \<Rightarrow> real \<Rightarrow> LaserScannerParams option" where
  "make_LaserScannerParams mr st ma =
     (if mr \<le> 0 \<or> st \<le> 0 then None
      else Some \<lparr> max_range = mr, angle_step = st, max_angle = ma \<rparr>)"

text \<open>Modelled from the spec: \<open>GridMap::world_to_cell\<close>, the cell that encloses a world
  point, by the map's scale.\<close>

definition world_to_cell :: "GridMap \<Rightarrow> real \<Rightarrow> real \<Rightarrow> int \<times> int" where
  "world_to_cell m wx wy = (\<lfloor>wx / scale m\<rfloor>, \<lfloor>wy / scale m\<rfloor>)"

text \<open>Modelled from the spec: the extent query of the bounded map. Cell coordinates are
  relative to the map centre.\<close>

definition has_cell :: "GridMap \<Rightarrow> int \<times> int \<Rightarrow> bool" where
  "has_cell m c =
     (0 \<le> fst c + map_center_x m \<and> fst c + map_center_x m < int (width m)
      \<and> 0 \<le> snd c + map_center_y m \<and> snd c + map_center_y m < int (height m))"

text \<open>Modelled from the spec: the cell-value lookup of the bounded map; outside the
  extent it is an error, here \<open>None\<close>.\<close>

definition map_cell_value :: "GridMap \<Rightarrow> int \<times> int \<Rightarrow> real option" where
  "map_cell_value m c =
     (if has_cell m c
      then Some (cells m ! nat (snd c + map_center_y m) ! nat (fst c + map_center_x m))
      else None)"

text \<open>
  Modelled from the spec: the grid traversal of section 4.5, step 2, as the parametric
  traversal over cell boundaries that section 9 names. Along one axis a ray of
  direction component \<open>d\<close> from the coordinate \<open>p\<close> moves by \<open>axis_step d\<close> cells and
  leaves the cell of index \<open>c\<close> at the distance \<open>axis_cross s p d c\<close>.
\<close>

definition axis_step :: "real \<Rightarrow> int" where
  "axis_step d = (if 0 < d then 1 else if d < 0 then - 1 else 0)"

definition axis_cross :: "real \<Rightarrow> real \<Rightarrow> real \<Rightarrow> int \<Rightarrow> real" where
  "axis_cross s p d c =
     (if 0 < d then ((of_int c + 1) * s - p) / d else (of_int c * s - p) / d)"

text \<open>
  Modelled from the spec: one step of the traversal, the next cell the ray enters and
  the distance from the origin to its entry point. Which boundary is crossed first is
  decided with \<open>less_or_equal\<close>, the tolerance comparison of section 4.1.
\<close>

definition next_cell ::
  "real \<Rightarrow> real \<times> real \<Rightarrow> real \<times> real \<Rightarrow> int \<times> int \<Rightarrow> ((int \<times> int) \<times> real) option" where
  "next_cell s p d c =
     (let tx = axis_cross s (fst p) (fst d) (fst c);
          ty = axis_cross s (snd p) (snd d) (snd c);
          cx = fst c + axis_step (fst d);
          cy = snd c + axis_step (snd d)
      in if fst d = 0 \<and> snd d = 0 then None
         else if snd d = 0 then Some ((cx, snd c), tx)
         else if fst d = 0 then Some ((fst c, cy), ty)
         else if less_or_equal (Fin tx) (Fin ty) then Some ((cx, snd c), tx)
         else Some ((fst c, cy), ty))"

text \<open>The number of cells between a cell and the border of the map in the direction of
  the ray: what bounds the march.\<close>

definition cells_ahead :: "GridMap \<Rightarrow> real \<times> real \<Rightarrow> int \<times> int \<Rightarrow> nat" where
  "cells_ahead m d c =
     (if 0 < fst d then nat (int (width m) - (fst c + map_center_x m))
      else if fst d < 0 then nat (fst c + map_center_x m + 1) else 0)
     + (if 0 < snd d then nat (int (height m) - (snd c + map_center_y m))
        else if snd d < 0 then nat (snd c + map_center_y m + 1) else 0)"

text \<open>
  Modelled from the spec: the march of one ray (section 4.5, steps 2 to 4) from the cell
  \<open>c\<close>, entered at the distance \<open>t\<close>. The beam is a miss when the ray has left the
  map's extent or has travelled more than \<open>max_range\<close>; it is a hit, with the entry
  distance as range, at the first cell whose value is 1.
\<close>

function march ::
  "GridMap \<Rightarrow> real \<Rightarrow> real \<times> real \<Rightarrow> real \<times> real \<Rightarrow> int \<times> int \<Rightarrow> real \<Rightarrow> real option" where
  "march m R p d c t =
     (if \<not> has_cell m c \<or> R < t then None
      else if map_cell_value m c = Some 1 then Some t
      else (case next_cell (scale m) p d c of
              None \<Rightarrow> None
            | Some (c', t') \<Rightarrow> march m R p d c' t'))"
  by pat_completeness auto
termination
  by (relation "measure (\<lambda>(m, R, p, d, c, t). cells_ahead m d c)")
     (auto simp: next_cell_def has_cell_def cells_ahead_def axis_step_def Let_def
        split: if_splits)

declare march.simps [simp del]

text \<open>Modelled from the spec: the cells that the march visits, in order, up to the cell
  of the hit.\<close>

function ray_cells ::
  "GridMap \<Rightarrow> real \<Rightarrow> real \<times> real \<Rightarrow> real \<times> real \<Rightarrow> int \<times> int \<Rightarrow> real \<Rightarrow> (int \<times> int) list" where
  "ray_cells m R p d c t =
     (if \<not> has_cell m c \<or> R < t then []
      else if map_cell_value m c = Some 1 then [c]
      else (case next_cell (scale m) p d c of
              None \<Rightarrow> [c]
            | Some (c', t') \<Rightarrow> c # ray_cells m R p d c' t'))"
  by pat_completeness auto
termination
  by (relation "measure (\<lambda>(m, R, p, d, c, t). cells_ahead m d c)")
     (auto simp: next_cell_def has_cell_def cells_ahead_def axis_step_def Let_def
        split: if_splits)

declare ray_cells.simps [simp del]

text \<open>
  Modelled from the spec: the normalisation of a beam angle to one turn. The turn is
  taken from \<open>- \<pi>\<close> on: the scenario of section 8 and the tests report the beam at
  \<open>- 180\<close> degrees at \<open>- 180\<close> degrees.
\<close>

definition normalize_angle :: "real \<Rightarrow> real" where
  "normalize_angle a = a - 2 * pi * of_int \<lfloor>(a + pi) / (2 * pi)\<rfloor>"

text \<open>
  Modelled from the spec: the beam angles \<open>- max_angle, - max_angle + angle_step, \<dots>\<close>
  below \<open>max_angle\<close> (section 3). The fan is half open, as the scenarios of section 8
  and the tests count the beams: four beams, at \<open>- 180\<close>, \<open>- 90\<close>, 0 and 90 degrees, for
  a step of 90 and a half span of 180 degrees.
\<close>

definition beam_angles :: "LaserScannerParams \<Rightarrow> real list" where
  "beam_angles p =
     map (\<lambda>k. - max_angle p + real k * angle_step p)
       [0 ..< nat \<lceil>2 * max_angle p / angle_step p\<rceil>]"

text \<open>Modelled from the spec: one beam (section 4.5, steps 1 to 4): a scan point for a
  hit, nothing for a miss.\<close>

definition cast_beam :: "GridMap \<Rightarrow> LaserScannerParams \<Rightarrow> RobotPose \<Rightarrow> real \<Rightarrow> ScanPoint list" where
  "cast_beam m p pose b =
     (case march m (max_range p) (rp_x pose, rp_y pose)
             (cos (rp_theta pose + b), sin (rp_theta pose + b))
             (world_to_cell m (rp_x pose) (rp_y pose)) 0 of
        None \<Rightarrow> []
      | Some r \<Rightarrow> [\<lparr> sp_range = r, sp_angle = normalize_angle b, sp_is_occupied = True \<rparr>])"

text \<open>The cells that the ray of one beam visits.\<close>

definition beam_cells :: "GridMap \<Rightarrow> LaserScannerParams \<Rightarrow> RobotPose \<Rightarrow> real \<Rightarrow> (int \<times> int) list" where
  "beam_cells m p pose b =
     ray_cells m (max_range p) (rp_x pose, rp_y pose)
       (cos (rp_theta pose + b), sin (rp_theta pose + b))
       (world_to_cell m (rp_x pose) (rp_y pose)) 0"

text \<open>
  Modelled from the spec: \<open>LaserScanGenerator::generate_2D_laser_scan(map, pose, step)\<close>,
  the hits of all beams in the order of the beams (section 4.5, step 5). The algorithm of
  section 4.5 gives the third argument no role.
\<close>

definition generate_2D_laser_scan ::
  "LaserScannerParams \<Rightarrow> GridMap \<Rightarrow> RobotPose \<Rightarrow> real \<Rightarrow> ScanPoint list" where
  "generate_2D_laser_scan p m pose step = concat (map (cast_beam m p pose) (beam_angles p))"

subsection \<open>Flat walls\<close>

text \<open>
  The vocabulary of the oblique-incidence property. A wall is the column or row \<open>k\<close> of
  the grid, on one side of the sensor, and its normal points away from the sensor. It is
  flat for a ray when, among the cells the ray visits, those before the line \<open>k\<close> are
  free and those on it are occupied: the ray reaches the wall through its face.
\<close>

datatype wall_side = East | West | North | South

fun before_wall :: "wall_side \<Rightarrow> int \<Rightarrow> int \<times> int \<Rightarrow> bool" where
  "before_wall East k c = (fst c < k)"
| "before_wall West k c = (k < fst c)"
| "before_wall North k c = (snd c < k)"
| "before_wall South k c = (k < snd c)"

fun on_wall :: "wall_side \<Rightarrow> int \<Rightarrow> int \<times> int \<Rightarrow> bool" where
  "on_wall East k c = (fst c = k)"
| "on_wall West k c = (fst c = k)"
| "on_wall North k c = (snd c = k)"
| "on_wall South k c = (snd c = k)"

definition flat_wall :: "GridMap \<Rightarrow> wall_side \<Rightarrow> int \<Rightarrow> (int \<times> int) list \<Rightarrow> bool" where
  "flat_wall m side k path =
     (\<forall>c \<in> set path. (before_wall side k c \<longrightarrow> map_cell_value m c \<noteq> Some 1)
        \<and> (on_wall side k c \<longrightarrow> map_cell_value m c = Some 1))"

text \<open>The perpendicular distance from the sensor to the face of the wall.\<close>

fun wall_distance :: "GridMap \<Rightarrow> RobotPose \<Rightarrow> wall_side \<Rightarrow> int \<Rightarrow> real" where
  "wall_distance m pose East k = of_int k * scale m - rp_x pose"
| "wall_distance m pose West k = rp_x pose - (of_int k + 1) * scale m"
| "wall_distance m pose North k = of_int k * scale m - rp_y pose"
| "wall_distance m pose South k = rp_y pose - (of_int k + 1) * scale m"

fun normal_angle :: "wall_side \<Rightarrow> real" where
  "normal_angle East = 0"
| "normal_angle West = pi"
| "normal_angle North = pi / 2"
| "normal_angle South = - pi / 2"

text \<open>A map of four by four cells with a piece of wall in the upper half of its last
  column, a sensor in the middle of the first cell, and a sensor inside the wall.\<close>

definition corner_map :: GridMap where
  "corner_map = \<lparr> width = 4, height = 4, scale = 1, map_center_x = 0, map_center_y = 0,
                    cells = [ [0, 0, 0, 0], [0, 0, 0, 0], [0, 0, 0, 1], [0, 0, 0, 1] ] \<rparr>"

definition corner_params :: LaserScannerParams where
  "corner_params = \<lparr> max_range = 10, angle_step = pi / 2, max_angle = pi \<rparr>"

definition corner_pose :: RobotPose where
  "corner_pose = \<lparr> rp_x = 1 / 2, rp_y = 1 / 2, rp_theta = 0 \<rparr>"

definition inside_pose :: RobotPose where
  "inside_pose = \<lparr> rp_x = 7 / 2, rp_y = 5 / 2, rp_theta = 0 \<rparr>"

section \<open>The generator's test (test/utils/data\_generation/laser\_scan\_generator\_test.cpp)\<close>

text \<open>Integer division of C++ truncates towards zero.\<close>

definition cdiv :: "int \<Rightarrow> int \<Rightarrow> int" where
  "cdiv a b = sgn a * sgn b * (\<bar>a\<bar> div \<bar>b\<bar>)"

definition Cecum_Patch_W :: int where
  "Cecum_Patch_W = 3"

definition Cecum_Patch_H :: int where
  "Cecum_Patch_H = 3"

definition Cecum_Free_W :: int where
  "Cecum_Free_W = 1"

definition Cecum_Free_H :: int where
  "Cecum_Free_H = 2"

definition Cecum_Free_X_Start :: int where
  "Cecum_Free_X_Start = 1"

definition Cecum_Free_Y_Start :: int where
  "Cecum_Free_Y_Start = - 1"

definition Map_Scale :: real where
  "Map_Scale = 1"

definition Patch_Scale :: int where
  "Patch_Scale = 10"

text \<open>The fixture's pose, the middle of a cell, and \<open>rpose += rpd\<close>, which adds field by
  field (section 4.2 of the specification).\<close>

definition fixture_rpose :: RobotPose where
  "fixture_rpose = \<lparr> rp_x = Map_Scale / 2, rp_y = Map_Scale / 2, rp_theta = 0 \<rparr>"

definition pose_plus :: "RobotPose \<Rightarrow> real \<times> real \<times> real \<Rightarrow> RobotPose" where
  "pose_plus pose rpd =
     (case rpd of (d_x, d_y, d_theta) \<Rightarrow>
        \<lparr> rp_x = rp_x pose + d_x, rp_y = rp_y pose + d_y, rp_theta = rp_theta pose + d_theta \<rparr>)"

text \<open>\<open>ScanPoint{range, angle}\<close>.\<close>

definition make_ScanPoint :: "real \<Rightarrow> real \<Rightarrow> ScanPoint" where
  "make_ScanPoint r a = \<lparr> sp_range = r, sp_angle = a, sp_is_occupied = True \<rparr>"

text \<open>googletest's \<open>ASSERT_NEAR(val1, val2, abs_error)\<close> passes when
  \<open>|val1 - val2| <= abs_error\<close>.\<close>

definition ASSERT_NEAR :: "double \<Rightarrow> double \<Rightarrow> double \<Rightarrow> bool" where
  "ASSERT_NEAR val1 val2 abs_error = dle (dabs (dsub val1 val2)) abs_error"

text \<open>\<open>check_scan_point\<close>: the range error allowed grows with \<open>1 / cos\<close> of the beam's
  direction.\<close>

definition check_scan_point :: "RobotPose \<Rightarrow> ScanPoint \<Rightarrow> ScanPoint \<Rightarrow> ScanPoint \<Rightarrow> bool" where
  "check_scan_point rpose expected actual abs_err =
     (ASSERT_NEAR (Fin (sp_angle expected)) (Fin (sp_angle actual)) (Fin (sp_angle abs_err))
      \<and> ASSERT_NEAR (Fin (sp_range expected)) (Fin (sp_range actual))
           (dabs (ddiv (Fin (sp_range abs_err)) (Fin (cos (rp_theta rpose + sp_angle actual))))))"

text \<open>
  \<open>check_scan_points\<close>. The fixture's map is not among the sources:
  \<open>map_at_vec x y range angle\<close> stands for \<open>map[map.world_to_cell_by_vec(x, y, range,
  angle)]\<close>.
\<close>

definition check_scan_points ::
  "(real \<Rightarrow> real \<Rightarrow> real \<Rightarrow> real \<Rightarrow> real) \<Rightarrow> RobotPose \<Rightarrow> ScanPoint list \<Rightarrow> ScanPoint list
     \<Rightarrow> ScanPoint \<Rightarrow> bool" where
  "check_scan_points map_at_vec rpose expected actual sp_err =
     (length expected = length actual
      \<and> list_all
          (\<lambda>(e, a). check_scan_point rpose e a sp_err
             \<and> ASSERT_NEAR (Fin (if sp_is_occupied a then 1 else 0))
                  (Fin (map_at_vec (rp_x rpose) (rp_y rpose) (sp_range a)
                          (rp_theta rpose + sp_angle a)))
                  (Fin (1 / 100)))
          (zip expected actual))"

text \<open>The generator of the fixture, \<open>lsg\<close>.\<close>

definition lsg :: LaserScannerParams where
  "lsg = \<lparr> max_range = 150, angle_step = deg2rad 90, max_angle = deg2rad 180 \<rparr>"

text \<open>
  The test \<open>insideObstacle4beams\<close>. \<open>generate\<close> stands for \<open>generate_2D_laser_scan\<close>
  on the fixture's map after the cell of the pose has been observed occupied with full
  confidence; the check runs with its default error,
  \<open>ScanPoint{Map_Scale / 2, 0.001}\<close>.
\<close>

definition insideObstacle_Expected_SPs :: "ScanPoint list" where
  "insideObstacle_Expected_SPs =
     [make_ScanPoint 0 (deg2rad (- 180)), make_ScanPoint 0 (deg2rad (- 90)),
      make_ScanPoint 0 (deg2rad 0), make_ScanPoint 0 (deg2rad 90)]"

definition insideObstacle4beams ::
  "(LaserScannerParams \<Rightarrow> RobotPose \<Rightarrow> real \<Rightarrow> ScanPoint list)
     \<Rightarrow> (real \<Rightarrow> real \<Rightarrow> real \<Rightarrow> real \<Rightarrow> real) \<Rightarrow> bool" where
  "insideObstacle4beams generate map_at_vec =
     (let scan = generate lsg fixture_rpose 1
      in check_scan_points map_at_vec fixture_rpose insideObstacle_Expected_SPs scan
           (make_ScanPoint (Map_Scale / 2) (1 / 1000)))"

text \<open>
  Modelled from the spec: \<open>map[map.world_to_cell_by_vec(x, y, range, angle)]\<close> on the
  map of section 4.4, the value of the cell that encloses the point at the given
  distance and angle from \<open>(x, y)\<close>; a cell outside the current extent is unknown.
\<close>

definition map_at_vec_of :: "GridMap \<Rightarrow> real \<Rightarrow> real \<Rightarrow> real \<Rightarrow> real \<Rightarrow> real" where
  "map_at_vec_of m wx wy r a =
     (case map_cell_value m (world_to_cell m (wx + r * cos a) (wy + r * sin a)) of
        Some v \<Rightarrow> v
      | None \<Rightarrow> - 1)"

text \<open>
  The test \<open>cecumCenterFacingDown8beams240FoW\<close> moves the fixture's pose to the middle of
  the corridor, facing down.
\<close>

definition cecumCenter_rpose :: RobotPose where
  "cecumCenter_rpose =
     pose_plus fixture_rpose
       (of_int (Cecum_Patch_W * Patch_Scale) * Map_Scale / 2,
        of_int (Cecum_Free_Y_Start * Patch_Scale - cdiv (Cecum_Free_H * Patch_Scale) 2) * Map_Scale,
        deg2rad (- 90))"

subsection \<open>The fixture's map\<close>

text \<open>\<open>Cecum_Corridor_Map_Patch\<close>, the raster of the fixture, line by line.\<close>

definition Cecum_Corridor_Map_Patch :: "string list" where
  "Cecum_Corridor_Map_Patch = [''+-+'', ''| |'', ''| |'']"

text \<open>
  Modelled from the spec: the value that \<open>apply_text_raster(map, raster, {}, k, k)\<close>
  leaves in a cell (\<open>grid_map_patcher.h\<close> is not among the sources). The patch of
  section 8 is laid out as the test's constants and its \<open>dbg_print_map_pose\<close> read it:
  the first character of the raster lies at the cell \<open>(0, 0)\<close>, the lines run towards
  negative \<open>y\<close>, every character covers \<open>k \<times> k\<close> cells, a character other than the blank
  makes its cells occupied, and every other cell keeps the value 0 of the fixture's
  \<open>TestGridCell\<close>.
\<close>

definition raster_value :: "string list \<Rightarrow> int \<Rightarrow> int \<times> int \<Rightarrow> real" where
  "raster_value raster k c =
     (let row = nat (- snd c) div nat k; col = nat (fst c) div nat k
      in if 0 \<le> fst c \<and> snd c \<le> 0 \<and> row < length raster \<and> col < length (raster ! row)
            \<and> raster ! row ! col \<noteq> CHR '' ''
         then 1 else 0)"

text \<open>
  Modelled from the spec: the map of the scenarios of section 8, the corridor patch
  scaled by \<open>Patch_Scale\<close> in a map of \<open>Map_Width \<times> Map_Height = 100 \<times> 100\<close> cells at
  scale 1, its centre in the middle of the extent.
\<close>

definition cecum_map :: GridMap where
  "cecum_map =
     \<lparr> width = 100, height = 100, scale = Map_Scale, map_center_x = 50, map_center_y = 50,
       cells = map (\<lambda>j. map (\<lambda>i. raster_value Cecum_Corridor_Map_Patch Patch_Scale
                                      (int i - 50, int j - 50)) [0 ..< 100]) [0 ..< 100] \<rparr>"

text \<open>
  Modelled from the spec: the sensor of the second scenario of section 8, 8 beams
  spanning a field of view of 270 degrees with a step of 33.75 degrees; the maximal range
  is the one of the test, 15. (The test itself passes \<open>deg2rad(270 / 8)\<close>, a division of
  integers.)
\<close>

definition cecumCenter_params :: LaserScannerParams where
  "cecumCenter_params =
     \<lparr> max_range = 15, angle_step = deg2rad (135 / 4), max_angle = deg2rad 135 \<rparr>"

section \<open>Properties of the rounding\<close>

text \<open>Rounding to an integer is within one half, and monotone.\<close>

lemma rhe_near: "\<bar>of_int (rhe q) - q\<bar> \<le> 1 / 2"
  unfolding rhe_def Let_def by (auto simp: abs_real_def) linarith+

lemma rhe_of_int [simp]: "rhe (of_int n) = n"
  by (simp add: rhe_def)

lemma rhe_numeral [simp]: "rhe (numeral n) = numeral n"
  by (simp add: rhe_def)

lemma rhe_zero [simp]: "rhe 0 = 0"
  by (simp add: rhe_def)

lemma rhe_mono: "q \<le> q' \<Longrightarrow> rhe q \<le> rhe q'"
proof (rule ccontr)
  assume le: "q \<le> q'" and "\<not> rhe q \<le> rhe q'"
  then have "rhe q' + 1 \<le> rhe q" by simp
  then have a: "(of_int (rhe q') :: real) + 1 \<le> of_int (rhe q)"
    by (metis of_int_1 of_int_add of_int_le_iff)
  from rhe_near [of q] rhe_near [of q'] a le
  have eq: "q = q'" "of_int (rhe q) - q = 1 / 2" by (auto simp: abs_real_def split: if_splits)
  with \<open>\<not> rhe q \<le> rhe q'\<close> show False by simp
qed

text \<open>The exponent brackets the number, between the subnormal range and the overflow
  threshold, and it is monotone.\<close>

lemma powi2_Suc: "(2::real) powi (k + 1) = 2 * 2 powi k"
  by (simp add: power_int_add)

lemma expo_up_spec:
  "1 \<le> x \<Longrightarrow> e \<le> 1024 \<Longrightarrow>
     e \<le> expo_up x e \<and> expo_up x e \<le> 1024
     \<and> 2 powi (expo_up x e - e) \<le> x
     \<and> (x < 2 powi (expo_up x e - e + 1) \<or> expo_up x e = 1024)"
proof (induction x e rule: expo_up.induct)
  case (1 x e)
  show ?case
  proof (cases "2 \<le> x \<and> e < 1024")
    case True
    then have r: "expo_up x e = expo_up (x / 2) (e + 1)"
      by (subst expo_up.simps) simp
    from True have "1 \<le> x / 2" "e + 1 \<le> 1024" by simp_all
    from "1.IH" [OF True this]
    have ih: "e + 1 \<le> expo_up x e" "expo_up x e \<le> 1024"
      "2 powi (expo_up x e - (e + 1)) \<le> x / 2"
      "x / 2 < 2 powi (expo_up x e - (e + 1) + 1) \<or> expo_up x e = 1024"
      unfolding r by simp_all
    have p: "(2::real) powi (expo_up x e - e) = 2 * 2 powi (expo_up x e - (e + 1))"
      "(2::real) powi (expo_up x e - e + 1) = 2 * 2 powi (expo_up x e - (e + 1) + 1)"
      using powi2_Suc [of "expo_up x e - (e + 1)"] powi2_Suc [of "expo_up x e - (e + 1) + 1"]
      by (simp_all add: algebra_simps)
    from ih show ?thesis unfolding p by auto
  next
    case False
    then have r: "expo_up x e = e"
      by (subst expo_up.simps) auto
    from False "1.prems" show ?thesis
      unfolding r by auto
  qed
qed

lemma expo_down_spec:
  "0 \<le> x \<Longrightarrow> x < 2 \<Longrightarrow> - 1022 \<le> e \<Longrightarrow>
     - 1022 \<le> expo_down x e \<and> expo_down x e \<le> e
     \<and> x < 2 powi (expo_down x e - e + 1)
     \<and> (2 powi (expo_down x e - e) \<le> x \<or> expo_down x e = - 1022)"
proof (induction x e rule: expo_down.induct)
  case (1 x e)
  show ?case
  proof (cases "x < 1 \<and> - 1022 < e")
    case True
    then have r: "expo_down x e = expo_down (2 * x) (e - 1)"
      by (subst expo_down.simps) simp
    from True "1.prems" have "0 \<le> 2 * x" "2 * x < 2" "- 1022 \<le> e - 1" by simp_all
    from "1.IH" [OF True this]
    have ih: "- 1022 \<le> expo_down x e" "expo_down x e \<le> e - 1"
      "2 * x < 2 powi (expo_down x e - (e - 1) + 1)"
      "2 powi (expo_down x e - (e - 1)) \<le> 2 * x \<or> expo_down x e = - 1022"
      unfolding r by simp_all
    have p: "(2::real) powi (expo_down x e - (e - 1) + 1) = 2 * 2 powi (expo_down x e - e + 1)"
      "(2::real) powi (expo_down x e - (e - 1)) = 2 * 2 powi (expo_down x e - e)"
      using powi2_Suc [of "expo_down x e - e + 1"] powi2_Suc [of "expo_down x e - e"]
      by (simp_all add: algebra_simps)
    from ih show ?thesis unfolding p by auto
  next
    case False
    then have r: "expo_down x e = e"
      by (subst expo_down.simps) auto
    from False "1.prems" show ?thesis
      unfolding r by auto
  qed
qed

lemma binade_spec:
  assumes "0 \<le> x"
  shows "- 1022 \<le> binade x" "binade x \<le> 1024"
    "2 powi binade x \<le> x \<or> binade x = - 1022"
    "x < 2 powi (binade x + 1) \<or> binade x = 1024"
proof -
  have "- 1022 \<le> binade x \<and> binade x \<le> 1024
    \<and> (2 powi binade x \<le> x \<or> binade x = - 1022)
    \<and> (x < 2 powi (binade x + 1) \<or> binade x = 1024)"
  proof (cases "1 \<le> x")
    case True
    with expo_up_spec [of x 0] show ?thesis by (simp add: binade_def)
  next
    case False
    with assms expo_down_spec [of x 0] show ?thesis by (simp add: binade_def)
  qed
  then show "- 1022 \<le> binade x" "binade x \<le> 1024"
    "2 powi binade x \<le> x \<or> binade x = - 1022"
    "x < 2 powi (binade x + 1) \<or> binade x = 1024"
    by simp_all
qed

lemma binade_mono:
  assumes "0 \<le> x" "x \<le> y"
  shows "binade x \<le> binade y"
proof (rule ccontr)
  assume "\<not> binade x \<le> binade y"
  then have lt: "binade y < binade x" by simp
  from assms have y: "0 \<le> y" by simp
  from lt binade_spec(1) [OF y] have "binade x \<noteq> - 1022" by simp
  with binade_spec(3) [OF assms(1)] have a: "2 powi binade x \<le> x" by simp
  from lt binade_spec(2) [OF assms(1)] have "binade y \<noteq> 1024" by simp
  with binade_spec(4) [OF y] have b: "y < 2 powi (binade y + 1)" by simp
  from lt have "(2::real) powi (binade y + 1) \<le> 2 powi binade x"
    by (intro power_int_increasing) simp_all
  with a b assms(2) show False by simp
qed

text \<open>Rounding to a double is monotone, and off by at most \<open>2 ^ - 53\<close> of a number in the
  normal range.\<close>

lemma powi2_split: "(2::real) powi e = 2 ^ 52 * 2 powi (e - 52)"
proof -
  have "(2::real) powi e = 2 powi (52 + (e - 52))" by simp
  also have "\<dots> = 2 powi 52 * 2 powi (e - 52)"
    by (subst power_int_add) simp_all
  finally show ?thesis by simp
qed

lemma round_val_lower:
  assumes "0 \<le> x" and "2 powi binade x \<le> x"
  shows "2 powi binade x \<le> round_val x"
proof -
  let ?u = "(2::real) powi (binade x - 52)"
  have u: "0 < ?u" by simp
  from assms(2) have "2 ^ 52 * ?u \<le> x" using powi2_split [of "binade x"] by simp
  then have "2 ^ 52 \<le> x / ?u" using u by (simp add: pos_le_divide_eq)
  then have "of_int (2 ^ 52) \<le> x / ?u" by simp
  from rhe_mono [OF this] have "2 ^ 52 \<le> rhe (x / ?u)" by simp
  then have "(2 ^ 52 :: real) \<le> of_int (rhe (x / ?u))"
    by (metis of_int_le_iff of_int_numeral of_int_power)
  then have "2 ^ 52 * ?u \<le> of_int (rhe (x / ?u)) * ?u"
    using u by (intro mult_right_mono) simp_all
  then show ?thesis
    using powi2_split [of "binade x"] by (simp add: round_val_def)
qed

lemma round_val_upper:
  assumes "0 \<le> x" and "x < 2 powi (binade x + 1)"
  shows "round_val x \<le> 2 powi (binade x + 1)"
proof -
  let ?u = "(2::real) powi (binade x - 52)"
  have u: "0 < ?u" by simp
  have p: "(2::real) powi (binade x + 1) = 2 ^ 53 * ?u"
    using powi2_split [of "binade x"] powi2_Suc [of "binade x"] by simp
  from assms(2) have "x / ?u \<le> 2 ^ 53" using u unfolding p by (simp add: pos_divide_le_eq)
  then have "x / ?u \<le> of_int (2 ^ 53)" by simp
  from rhe_mono [OF this] have "rhe (x / ?u) \<le> 2 ^ 53" by simp
  then have "of_int (rhe (x / ?u)) \<le> (2 ^ 53 :: real)"
    by (metis of_int_le_iff of_int_numeral of_int_power)
  then have "of_int (rhe (x / ?u)) * ?u \<le> 2 ^ 53 * ?u"
    using u by (intro mult_right_mono) simp_all
  then show ?thesis unfolding p by (simp add: round_val_def)
qed

lemma round_val_mono:
  assumes "0 \<le> x" "x \<le> y"
  shows "round_val x \<le> round_val y"
proof -
  from assms have y: "0 \<le> y" by simp
  from binade_mono [OF assms] consider "binade x = binade y" | "binade x < binade y"
    by linarith
  then show ?thesis
  proof cases
    case 1
    let ?u = "(2::real) powi (binade y - 52)"
    have "x / ?u \<le> y / ?u" using assms(2) by (simp add: divide_right_mono)
    from rhe_mono [OF this] have "(of_int (rhe (x / ?u)) :: real) \<le> of_int (rhe (y / ?u))"
      by simp
    then have "of_int (rhe (x / ?u)) * ?u \<le> of_int (rhe (y / ?u)) * ?u"
      by (intro mult_right_mono) simp_all
    with 1 show ?thesis by (simp add: round_val_def)
  next
    case 2
    with binade_spec(2) [OF y] have "binade x \<noteq> 1024" by simp
    with binade_spec(4) [OF assms(1)] have "x < 2 powi (binade x + 1)" by simp
    from round_val_upper [OF assms(1) this] have a: "round_val x \<le> 2 powi (binade x + 1)" .
    from 2 binade_spec(1) [OF assms(1)] have "binade y \<noteq> - 1022" by simp
    with binade_spec(3) [OF y] have "2 powi binade y \<le> y" by simp
    from round_val_lower [OF y this] have b: "2 powi binade y \<le> round_val y" .
    from 2 have "(2::real) powi (binade x + 1) \<le> 2 powi binade y"
      by (intro power_int_increasing) simp_all
    with a b show ?thesis by simp
  qed
qed

lemma round_pos_mono: "0 \<le> x \<Longrightarrow> x \<le> y \<Longrightarrow> dle (round_pos x) (round_pos y)"
  using round_val_mono [of x y] by (simp add: round_pos_def)

lemma round_val_error:
  assumes "0 \<le> x" and "2 powi binade x \<le> x"
  shows "\<bar>round_val x - x\<bar> \<le> x / 2 ^ 53"
proof -
  let ?u = "(2::real) powi (binade x - 52)"
  have u: "0 < ?u" by simp
  have "round_val x - x = (of_int (rhe (x / ?u)) - x / ?u) * ?u"
    using u by (simp add: round_val_def algebra_simps)
  then have "\<bar>round_val x - x\<bar> = \<bar>of_int (rhe (x / ?u)) - x / ?u\<bar> * ?u"
    using u by (simp add: abs_mult)
  also have "\<dots> \<le> 1 / 2 * ?u"
    using rhe_near [of "x / ?u"] u by (intro mult_right_mono) simp_all
  also have "\<dots> = 2 powi binade x / 2 ^ 53"
    using powi2_split [of "binade x"] by simp
  also have "\<dots> \<le> x / 2 ^ 53"
    using assms(2) by (simp add: divide_right_mono)
  finally show ?thesis .
qed

lemma binade_normal: "2 powi (- 1022) \<le> x \<Longrightarrow> 2 powi binade x \<le> x"
proof -
  assume a: "2 powi (- 1022) \<le> x"
  have "(0::real) < 2 powi (- 1022)" by simp
  with a have "0 \<le> x" by linarith
  from binade_spec(3) [OF this] a show ?thesis by auto
qed

lemma round_val_nonneg: "0 \<le> x \<Longrightarrow> 0 \<le> round_val x"
proof -
  assume "0 \<le> x"
  then have "0 \<le> x / 2 powi (binade x - 52)" by simp
  then have "of_int 0 \<le> x / 2 powi (binade x - 52)" by simp
  from rhe_mono [OF this] show ?thesis by (simp add: round_val_def)
qed

text \<open>The rules that evaluate the rounding of a given number.\<close>

lemmas rnd_eval = rnd_def round_pos_def round_val_def binade_def expo_down.simps expo_up.simps
  rhe_def Let_def is_double_def

lemma Eps_val: "Eps = Fin (944473296573929 / 9444732965739290427392)"
  by (simp add: Eps_def rnd_eval)

lemma rnd_0 [simp]: "rnd 0 = Fin 0"
  by (simp add: rnd_eval)

lemma round_pos_0 [simp]: "round_pos 0 = Fin 0"
  by (simp add: rnd_eval)

lemma dabs_dneg [simp]: "dabs (dneg d) = dabs d"
  by (cases d) simp_all

lemma dabs_round_pos: "0 \<le> x \<Longrightarrow> dabs (round_pos x) = round_pos x"
  using round_val_nonneg [of x] by (simp add: round_pos_def)

lemma dabs_rnd: "dabs (rnd x) = round_pos \<bar>x\<bar>"
  by (simp add: rnd_def dabs_round_pos abs_real_def)

lemma rnd_nonneg: "0 \<le> x \<Longrightarrow> rnd x = round_pos x"
  by (simp add: rnd_def)

section \<open>Properties of the tolerance utilities\<close>

text \<open>On finite operands \<open>are_equal\<close> compares the rounded difference with the rounded
  tolerance.\<close>

lemma dmax_Fin: "dmax (Fin x) (Fin y) = Fin (max x y)"
  by (simp add: dmax_def max_def)

lemma are_equal_Fin:
  "are_equal (Fin a) (Fin b) \<longleftrightarrow>
     dle (round_pos \<bar>a - b\<bar>)
         (round_pos (944473296573929 / 9444732965739290427392 * max 1 (max \<bar>a\<bar> \<bar>b\<bar>)))"
proof -
  have "0 \<le> 944473296573929 / 9444732965739290427392 * max 1 (max \<bar>a\<bar> \<bar>b\<bar>)"
    by (simp add: max_def)
  then show ?thesis
    by (simp add: are_equal_def Eps_val dmax_Fin dabs_rnd rnd_nonneg)
qed

text \<open>A double is below \<open>2 ^ 1024\<close> in magnitude.\<close>

lemma is_double_bound:
  assumes "is_double a"
  shows "\<bar>a\<bar> < 2 ^ 1024"
proof (cases "a < 0")
  case True
  with assms have "dneg (round_pos (- a)) = Fin a"
    by (simp add: is_double_def rnd_def)
  then have "round_pos (- a) = Fin (- a)"
    by (cases "round_pos (- a)") simp_all
  then have "round_val (- a) = - a \<and> \<not> 2 ^ 1024 \<le> round_val (- a)"
    by (simp add: round_pos_def split: if_splits)
  with True show ?thesis by simp
next
  case False
  with assms have "round_pos a = Fin a"
    by (simp add: is_double_def rnd_def)
  then have "round_val a = a \<and> \<not> 2 ^ 1024 \<le> round_val a"
    by (simp add: round_pos_def split: if_splits)
  with False show ?thesis by simp
qed

text \<open>
  The real comparison \<open>|a - b| \<le> \<epsilon> \<sqdot> max(1, |a|, |b|)\<close> and \<open>are_equal\<close> agree up to the
  rounding of the difference, of the product and of the literal \<open>1e-7\<close>: a relative
  \<open>2 ^ - 50\<close> of the tolerance covers the three.
\<close>

lemma are_equal_lower:
  assumes "\<bar>a - b\<bar> \<le> 1 / 10 ^ 7 * (1 - 1 / 2 ^ 50) * max 1 (max \<bar>a\<bar> \<bar>b\<bar>)"
  shows "are_equal (Fin a) (Fin b)"
proof -
  define s where "s = max 1 (max \<bar>a\<bar> \<bar>b\<bar>)"
  have s: "1 \<le> s" by (simp add: s_def)
  have "1 / 10 ^ 7 * (1 - 1 / 2 ^ 50) * s \<le> 944473296573929 / 9444732965739290427392 * s"
    using s by (intro mult_right_mono) simp_all
  with assms have "\<bar>a - b\<bar> \<le> 944473296573929 / 9444732965739290427392 * s"
    unfolding s_def by linarith
  from round_pos_mono [OF _ this] show ?thesis
    unfolding are_equal_Fin s_def by simp
qed

lemma Eps_normal: "(2::real) powi (- 1022) \<le> 944473296573929 / 9444732965739290427392"
proof -
  have "(2::real) powi (- 1022) \<le> 2 powi (- 30)"
    by (intro power_int_increasing) simp_all
  also have "\<dots> = 1 / 2 ^ 30"
    by (simp add: power_int_minus field_simps)
  also have "\<dots> \<le> 944473296573929 / 9444732965739290427392"
    by simp
  finally show ?thesis .
qed

lemma are_equal_upper:
  assumes a: "\<bar>a\<bar> < 2 ^ 1024" and b: "\<bar>b\<bar> < 2 ^ 1024"
    and eq: "are_equal (Fin a) (Fin b)"
  shows "\<bar>a - b\<bar> \<le> 1 / 10 ^ 7 * (1 + 1 / 2 ^ 50) * max 1 (max \<bar>a\<bar> \<bar>b\<bar>)"
proof -
  define s where "s = max 1 (max \<bar>a\<bar> \<bar>b\<bar>)"
  define e where "e = 944473296573929 / 9444732965739290427392 * s"
  define d where "d = \<bar>a - b\<bar>"
  have s: "1 \<le> s" "s < 2 ^ 1024"
    using a b by (simp_all add: s_def)
  have e0: "0 \<le> e" using s by (simp add: e_def)
  have "944473296573929 / 9444732965739290427392 * 1 \<le> e"
    unfolding e_def using s by (intro mult_left_mono) simp_all
  with Eps_normal have en: "2 powi (- 1022) \<le> e" by simp
  from round_val_error [OF e0 binade_normal [OF en]]
  have re: "round_val e \<le> e + e / 2 ^ 53" by (simp add: abs_real_def split: if_splits)
  have "e \<le> 1 / 2 * s" unfolding e_def using s by simp
  with re s have "round_val e < 2 ^ 1024" by simp
  then have rp: "round_pos e = Fin (round_val e)" by (simp add: round_pos_def)
  from eq have "dle (round_pos d) (Fin (round_val e))"
    unfolding are_equal_Fin d_def e_def s_def rp [unfolded e_def s_def] .
  then have le: "round_val d \<le> round_val e"
    by (simp add: round_pos_def split: if_splits)
  have d0: "0 \<le> d" by (simp add: d_def)
  have "d \<le> 1 / 10 ^ 7 * (1 + 1 / 2 ^ 50) * s"
  proof (cases "2 powi (- 1022) \<le> d")
    case True
    from round_val_error [OF d0 binade_normal [OF True]]
    have "d - d / 2 ^ 53 \<le> round_val d" by (simp add: abs_real_def split: if_splits)
    with le re have "d - d / 2 ^ 53 \<le> e + e / 2 ^ 53" by simp
    then show ?thesis unfolding e_def using s(1) by simp
  next
    case False
    with en have "d \<le> e" by simp
    then show ?thesis unfolding e_def using s(1) by simp
  qed
  then show ?thesis by (simp add: d_def s_def)
qed

text \<open>No single absolute threshold describes \<open>are_equal\<close>: \<open>2 ^ - 20\<close>, about a
  millionth, is within tolerance at 16 and out of tolerance at 0.\<close>

lemma is_double_16: "is_double 16" "is_double (16 + 1 / 2 ^ 20)" "is_double 0" "is_double (1 / 2 ^ 20)"
  by (simp_all add: rnd_eval)

lemma are_equal_at_16: "are_equal (Fin 16) (Fin (16 + 1 / 2 ^ 20))"
  by (rule are_equal_lower) simp

lemma not_are_equal_at_0: "\<not> are_equal (Fin 0) (Fin (1 / 2 ^ 20))"
proof
  assume "are_equal (Fin 0) (Fin (1 / 2 ^ 20))"
  from are_equal_upper [OF _ _ this] show False by simp
qed

lemma are_equal_not_absolute:
  "\<not> (\<exists>d. \<forall>x y. is_double x \<and> is_double y \<longrightarrow> (are_equal (Fin x) (Fin y) \<longleftrightarrow> \<bar>x - y\<bar> \<le> d))"
proof
  assume "\<exists>d. \<forall>x y. is_double x \<and> is_double y \<longrightarrow> (are_equal (Fin x) (Fin y) \<longleftrightarrow> \<bar>x - y\<bar> \<le> d)"
  then obtain d where d:
    "\<And>x y. is_double x \<Longrightarrow> is_double y \<Longrightarrow> are_equal (Fin x) (Fin y) \<longleftrightarrow> \<bar>x - y\<bar> \<le> d"
    by blast
  from d [OF is_double_16(1) is_double_16(2)] are_equal_at_16
  have "1 / 2 ^ 20 \<le> d" by simp
  with d [OF is_double_16(3) is_double_16(4)] not_are_equal_at_0
  show False by simp
qed

text \<open>
  Claim C3, as stated, at the doubles \<open>a = 0x1.ad7f29abcaf49p-24\<close>, the successor of the
  double \<open>1e-7\<close>, and \<open>b\<close>, the double nearest to \<open>7.5e-24\<close>: the difference \<open>a - b\<close>
  rounds to the double \<open>1e-7\<close>, the tolerance, so \<open>are_equal(a, b)\<close> is true, while
  \<open>|a - b|\<close> exceeds \<open>\<epsilon> \<sqdot> max(1, |a|, |b|) = 1e-7\<close>.
\<close>

theorem are_equal_beyond_tolerance:
  "is_double (7555786372591433 / 75557863725914323419136)
   \<and> is_double (5104235503814077 / 680564733841876926926749214863536422912)
   \<and> are_equal (Fin (7555786372591433 / 75557863725914323419136))
        (Fin (5104235503814077 / 680564733841876926926749214863536422912))
   \<and> \<not> \<bar>7555786372591433 / 75557863725914323419136
          - 5104235503814077 / 680564733841876926926749214863536422912\<bar>
        \<le> 1 / 10 ^ 7
           * max 1 (max \<bar>7555786372591433 / 75557863725914323419136 :: real\<bar>
                        \<bar>5104235503814077 / 680564733841876926926749214863536422912\<bar>)"
  by (simp add: are_equal_Fin rnd_eval)

text \<open>
  Claim C3, amended. For all doubles \<open>a\<close> and \<open>b\<close>, \<open>are_equal(a, b)\<close> is true whenever
  \<open>|a - b| \<le> \<epsilon> \<sqdot> (1 - 2 ^ - 50) \<sqdot> max(1, |a|, |b|)\<close> and false whenever
  \<open>|a - b| > \<epsilon> \<sqdot> (1 + 2 ^ - 50) \<sqdot> max(1, |a|, |b|)\<close>, with \<open>\<epsilon> = 1e-7\<close>; in between the
  rounding decides. The tolerance grows with the larger magnitude of the operands, and
  no fixed absolute epsilon gives the same comparison.
\<close>

theorem are_equal_scale_relative:
  assumes "is_double a" and "is_double b"
  shows "(\<bar>a - b\<bar> \<le> 1 / 10 ^ 7 * (1 - 1 / 2 ^ 50) * max 1 (max \<bar>a\<bar> \<bar>b\<bar>)
            \<longrightarrow> are_equal (Fin a) (Fin b))
   \<and> (are_equal (Fin a) (Fin b)
        \<longrightarrow> \<bar>a - b\<bar> \<le> 1 / 10 ^ 7 * (1 + 1 / 2 ^ 50) * max 1 (max \<bar>a\<bar> \<bar>b\<bar>))
   \<and> \<not> (\<exists>d. \<forall>x y. is_double x \<and> is_double y
            \<longrightarrow> (are_equal (Fin x) (Fin y) \<longleftrightarrow> \<bar>x - y\<bar> \<le> d))"
  using are_equal_lower [of a b]
    are_equal_upper [OF is_double_bound [OF assms(1)] is_double_bound [OF assms(2)]]
    are_equal_not_absolute
  by blast

theorem are_equal_scale_relative_witness:
  "is_double 16 \<and> is_double (16 + 1 / 2 ^ 20)
   \<and> are_equal (Fin 16) (Fin (16 + 1 / 2 ^ 20))"
  using are_equal_scale_relative [of 16 "16 + 1 / 2 ^ 20"]
  by (simp add: rnd_eval)

text \<open>\<open>less_or_equal\<close> holds of every pair in order, and of every number and itself.\<close>

lemma are_equal_refl: "are_equal (Fin a) (Fin a)"
  by (rule are_equal_lower) (simp add: max_def)

lemma less_or_equal_less: "a < b \<Longrightarrow> less_or_equal (Fin a) (Fin b)"
  by (simp add: less_or_equal_def)

lemma less_or_equal_refl: "less_or_equal (Fin a) (Fin a)"
  by (simp add: less_or_equal_def are_equal_refl)

lemma not_less_or_equal: "\<not> less_or_equal (Fin a) (Fin b) \<Longrightarrow> b < a"
  using less_or_equal_less [of a b] less_or_equal_refl [of a] by (cases a b rule: linorder_cases) auto

text \<open>
  Claim C7. For all real numbers \<open>a\<close>, \<open>b\<close>, \<open>c\<close>: \<open>less_or_equal(a, b)\<close> is true exactly
  when \<open>are_equal(a, b)\<close> holds or \<open>a < b\<close>; and \<open>are_ordered(a, b, c)\<close> is true exactly
  when \<open>less_or_equal(a, b)\<close> and \<open>less_or_equal(b, c)\<close> both hold.
\<close>

theorem less_or_equal_are_ordered:
  "(less_or_equal (Fin a) (Fin b) \<longleftrightarrow> are_equal (Fin a) (Fin b) \<or> a < b)
   \<and> (are_ordered (Fin a) (Fin b) (Fin c) \<longleftrightarrow>
        less_or_equal (Fin a) (Fin b) \<and> less_or_equal (Fin b) (Fin c))"
  by (simp add: less_or_equal_def are_ordered_def)

text \<open>The truncation of a ratio is no larger in magnitude than the ratio, which therefore
  sets the scale of the tolerance.\<close>

lemma trunc_real_abs: "\<bar>of_int (trunc_real q) :: real\<bar> \<le> \<bar>q\<bar>"
proof (cases "0 \<le> q")
  case True
  then have "0 \<le> \<lfloor>q\<rfloor>" by simp
  then have "(0::real) \<le> of_int \<lfloor>q\<rfloor>" by simp
  with True of_int_floor_le [of q] show ?thesis
    by (simp add: trunc_real_def)
next
  case False
  then have "\<lceil>q\<rceil> \<le> 0" by (simp add: ceiling_le_iff)
  then have "of_int \<lceil>q\<rceil> \<le> (0::real)" by simp
  with False le_of_int_ceiling [of q] show ?thesis
    by (simp add: trunc_real_def)
qed

lemma are_equal_trunc_Fin:
  "are_equal (Fin q) (Fin (of_int (trunc_real q)))
     \<longleftrightarrow> dle (round_pos \<bar>q - of_int (trunc_real q)\<bar>) (dmul Eps (Fin (max 1 \<bar>q\<bar>)))"
proof -
  have "max \<bar>q\<bar> \<bar>of_int (trunc_real q) :: real\<bar> = \<bar>q\<bar>"
    using trunc_real_abs [of q] by (simp add: max_def)
  then show ?thesis
    by (simp add: are_equal_def dmax_Fin dabs_rnd)
qed

text \<open>
  Claim C8. For every value and every nonzero factor, \<open>is_multiple_of(value, factor)\<close>
  is true exactly when \<open>are_equal(value / factor, trunc(value / factor))\<close> holds, the
  ratio being the quotient of the doubles, rounded; when the ratio is finite, the
  tolerance is \<open>\<epsilon> = 1e-7\<close> times the larger of 1 and the magnitude of the ratio.
\<close>

theorem is_multiple_of_ratio_trunc:
  assumes "factor \<noteq> 0"
  shows "(is_multiple_of (Fin v) (Fin factor)
            \<longleftrightarrow> are_equal (rnd (v / factor)) (dtrunc (rnd (v / factor))))
   \<and> (\<forall>q. rnd (v / factor) = Fin q \<longrightarrow>
         (is_multiple_of (Fin v) (Fin factor)
            \<longleftrightarrow> dle (round_pos \<bar>q - of_int (trunc_real q)\<bar>) (dmul Eps (Fin (max 1 \<bar>q\<bar>)))))"
  using assms by (simp add: is_multiple_of_def Let_def are_equal_trunc_Fin)

theorem is_multiple_of_ratio_trunc_witness:
  "(3602879701896397 / 36028797018963968 :: real) \<noteq> 0
   \<and> rnd (1 / (3602879701896397 / 36028797018963968)) = Fin 10
   \<and> is_multiple_of (Fin 1) (Fin (3602879701896397 / 36028797018963968))"
  using is_multiple_of_ratio_trunc [of "3602879701896397 / 36028797018963968" 1]
  by (simp add: rnd_eval are_equal_refl trunc_real_def)

text \<open>An infinity or NaN is never within tolerance of its own truncation.\<close>

lemma are_equal_trunc_special:
  "d = PInf \<or> d = NInf \<or> d = NaN \<Longrightarrow> \<not> are_equal d (dtrunc d)"
  by (auto simp: are_equal_def dmax_def Eps_val)

lemma ddiv_zero_special:
  "ddiv v (Fin 0) = PInf \<or> ddiv v (Fin 0) = NInf \<or> ddiv v (Fin 0) = NaN"
  by (cases v) auto

text \<open>
  Claim C9. For every value \<open>v\<close>, \<open>is_multiple_of(v, 0)\<close> returns false: the division by
  the zero factor yields an infinity or NaN, and \<open>are_equal\<close> of that ratio and its
  truncation never holds.
\<close>

theorem is_multiple_of_zero_factor: "is_multiple_of v (Fin 0) = False"
  using are_equal_trunc_special [OF ddiv_zero_special [of v]]
  by (simp add: is_multiple_of_def)

section \<open>Properties of \<open>ge_pow\<close>\<close>

text \<open>A state in which the loop continues and the multiplication changes nothing is
  never left.\<close>

lemma ge_pow_loop_stuck:
  assumes "ge_pow_loop N i p = Some y"
  shows "\<not> (p <s i \<and> p * N = p)"
proof (rule ge_pow_loop.raw_induct [where P = "\<lambda>N i p y. \<not> (p <s i \<and> p * N = p)", OF _ assms])
  fix f :: "32 word \<Rightarrow> 32 word \<Rightarrow> 32 word \<Rightarrow> 32 word option" and N i p y
  assume IH: "\<And>N i p y. f N i p = Some y \<Longrightarrow> \<not> (p <s i \<and> p * N = p)"
    and st: "(if p <s i then f N i (p * N) else Some p) = Some y"
  show "\<not> (p <s i \<and> p * N = p)"
  proof
    assume s: "p <s i \<and> p * N = p"
    with st have "f N i p = Some y" by simp
    from IH [OF this] s show False by simp
  qed
qed

lemma ge_pow_loop_None: "p <s i \<Longrightarrow> p * N = p \<Longrightarrow> ge_pow_loop N i p = None"
  using ge_pow_loop_stuck [of N i p] by (cases "ge_pow_loop N i p") auto

lemma ge_pow_loop_step: "p <s i \<Longrightarrow> ge_pow_loop N i p = ge_pow_loop N i (p * N)"
  by (subst ge_pow_loop.simps) simp

lemma ge_pow_loop_stop: "\<not> p <s i \<Longrightarrow> ge_pow_loop N i p = Some p"
  by (subst ge_pow_loop.simps) simp

lemma ge_pow_loop_steps:
  "(\<forall>m<k. (p * N ^ m) <s i) \<Longrightarrow> ge_pow_loop N i p = ge_pow_loop N i (p * N ^ k)"
proof (induction k)
  case 0
  show ?case by simp
next
  case (Suc k)
  then have "ge_pow_loop N i p = ge_pow_loop N i (p * N ^ k)" by simp
  also have "\<dots> = ge_pow_loop N i (p * N ^ k * N)"
    using Suc.prems by (intro ge_pow_loop_step) simp
  finally show ?case by (simp add: ac_simps)
qed

text \<open>A power below \<open>2 ^ 31\<close> is computed without wrapping.\<close>

lemma sint_pow32:
  assumes "unat N ^ j < 2 ^ 31"
  shows "sint (N ^ j :: 32 word) = int (unat N ^ j)"
proof -
  have "N ^ j = word_of_int (uint N ^ j)" by simp
  then have "sint (N ^ j) = signed_take_bit 31 (uint N ^ j)"
    by (simp only: sint_sbintrunc') simp
  also have "\<dots> = uint N ^ j"
  proof (rule signed_take_bit_int_eq_self)
    show "- (2 ^ 31) \<le> uint N ^ j"
      by (rule order_trans [of _ 0]) simp_all
    have "int (unat N ^ j) < int (2 ^ 31)"
      using assms by (simp only: of_nat_less_iff)
    then show "uint N ^ j < 2 ^ 31" by simp
  qed
  finally show ?thesis by simp
qed

lemma pow_mono_nat: "2 \<le> (n::nat) \<Longrightarrow> m \<le> k \<Longrightarrow> n ^ m \<le> n ^ k"
  by (intro power_increasing) simp_all

lemma ge_pow_loop_reaches:
  assumes N: "2 \<le> unat N"
    and rep: "unat N ^ k < 2 ^ 31"
    and ge: "sint i \<le> int (unat N ^ k)"
    and lt: "\<forall>m<k. int (unat N ^ m) < sint i"
  shows "ge_pow_loop N i 1 = Some (N ^ k)"
proof -
  have "(1 * N ^ m) <s i" if "m < k" for m
  proof -
    have "unat N ^ m \<le> unat N ^ k"
      using N that by (intro pow_mono_nat) simp_all
    with rep have "unat N ^ m < 2 ^ 31" by simp
    then have "sint (N ^ m) = int (unat N ^ m)" by (rule sint_pow32)
    with lt that show ?thesis by (simp add: word_sless_alt)
  qed
  then have "ge_pow_loop N i 1 = ge_pow_loop N i (1 * N ^ k)"
    by (intro ge_pow_loop_steps) simp
  also have "\<dots> = Some (N ^ k)"
    using ge sint_pow32 [OF rep] by (simp add: ge_pow_loop_stop word_sless_alt)
  finally show ?thesis .
qed

text \<open>The two remarks of the claim that hold as stated: the result is 1 for \<open>i \<le> 1\<close>
  whatever the base, and a base below 2 never returns for \<open>i > 1\<close>.\<close>

lemma ge_pow_le_one: "sint i \<le> 1 \<Longrightarrow> ge_pow N i = Some 1"
  by (simp add: ge_pow_def ge_pow_loop_stop word_sless_alt)

lemma ge_pow_base_le_one: "unat N \<le> 1 \<Longrightarrow> 1 < sint i \<Longrightarrow> ge_pow N i = None"
proof -
  assume a: "unat N \<le> 1" "1 < sint i"
  then have "unat N = unat (0 :: 32 word) \<or> unat N = unat (1 :: 32 word)"
    by auto
  then have "N = 0 \<or> N = 1"
    by (simp only: word_unat_eq_iff)
  then show ?thesis
  proof
    assume "N = 1"
    with a show ?thesis by (simp add: ge_pow_def ge_pow_loop_None word_sless_alt)
  next
    assume z: "N = 0"
    with a have "ge_pow_loop N i 1 = ge_pow_loop N i 0"
      by (subst ge_pow_loop_step) (simp_all add: word_sless_alt)
    also have "\<dots> = None" using a by (intro ge_pow_loop_None) (simp_all add: word_sless_alt)
    finally show ?thesis by (simp add: ge_pow_def)
  qed
qed

text \<open>
  Claim C10, as stated, at the base 2 and \<open>i = 2 ^ 30 + 1\<close>: the least power of 2 that
  is at least \<open>i\<close> is \<open>2 ^ 31\<close>, which is no \<open>int\<close>. The accumulator wraps to
  \<open>- 2 ^ 31\<close> and then to 0, where it stays: \<open>ge_pow\<close> does not return.
\<close>

theorem ge_pow_two_no_return: "ge_pow 2 1073741825 = None"
proof -
  have "(2 ^ m :: 32 word) <s 1073741825" if "m < 32" for m
  proof (cases "m < 31")
    case True
    then have "(2::nat) ^ m \<le> 2 ^ 30"
      by (intro power_increasing) simp_all
    then have b: "unat (2 :: 32 word) ^ m \<le> 2 ^ 30" by simp
    then have "sint (2 ^ m :: 32 word) = int (unat (2 :: 32 word) ^ m)"
      by (intro sint_pow32) simp
    moreover from b have "int (unat (2 :: 32 word) ^ m) \<le> int (2 ^ 30)"
      by (simp only: of_nat_le_iff)
    ultimately show ?thesis
      by (simp add: word_sless_alt)
  next
    case False
    with that have "m = 31" by simp
    then show ?thesis by (simp add: word_sless_alt)
  qed
  then have "ge_pow_loop 2 1073741825 1 = ge_pow_loop 2 1073741825 (1 * 2 ^ 32)"
    by (intro ge_pow_loop_steps) simp
  also have "\<dots> = None"
    by (rule ge_pow_loop_None) (simp_all add: word_sless_alt)
  finally show ?thesis by (simp add: ge_pow_def)
qed

text \<open>
  Claim C10, amended. For every base \<open>N \<ge> 2\<close> and every \<open>i\<close> for which the least power
  of \<open>N\<close> that is at least \<open>i\<close> is below \<open>2 ^ 31\<close>, \<open>ge_pow<N>(i)\<close> returns, and returns
  that power: \<open>N ^ k\<close> is at least \<open>i\<close>, the power before it (if any) is below \<open>i\<close>, and
  no power that is at least \<open>i\<close> is smaller.
\<close>

theorem ge_pow_least_power:
  assumes "2 \<le> unat N"
    and "unat N ^ k < 2 ^ 31"
    and "sint i \<le> int (unat N ^ k)"
    and "k = 0 \<or> int (unat N ^ (k - 1)) < sint i"
  shows "ge_pow N i = Some (N ^ k) \<and> sint (N ^ k) = int (unat N ^ k)
    \<and> (\<forall>j. sint i \<le> int (unat N ^ j) \<longrightarrow> unat N ^ k \<le> unat N ^ j)"
proof -
  have lt: "int (unat N ^ m) < sint i" if "m < k" for m
  proof -
    from that assms(4) have l: "int (unat N ^ (k - 1)) < sint i" by auto
    have "unat N ^ m \<le> unat N ^ (k - 1)"
      using assms(1) that by (intro pow_mono_nat) simp_all
    then have "int (unat N ^ m) \<le> int (unat N ^ (k - 1))"
      by (simp only: of_nat_le_iff)
    with l show ?thesis by linarith
  qed
  have least: "unat N ^ k \<le> unat N ^ j" if "sint i \<le> int (unat N ^ j)" for j
  proof (rule ccontr)
    assume "\<not> unat N ^ k \<le> unat N ^ j"
    then have "\<not> k \<le> j" using pow_mono_nat [OF assms(1)] by blast
    then have "j < k" by simp
    from lt [OF this] that show False by simp
  qed
  from lt have "ge_pow_loop N i 1 = Some (N ^ k)"
    by (intro ge_pow_loop_reaches assms) simp
  with least sint_pow32 [OF assms(2)] show ?thesis
    by (simp add: ge_pow_def)
qed

theorem ge_pow_least_power_witness:
  "2 \<le> unat (3 :: 32 word) \<and> unat (3 :: 32 word) ^ 3 < 2 ^ 31
   \<and> sint (10 :: 32 word) \<le> int (unat (3 :: 32 word) ^ 3)
   \<and> int (unat (3 :: 32 word) ^ (3 - 1)) < sint (10 :: 32 word)
   \<and> ge_pow 3 10 = Some 27 \<and> sint (27 :: 32 word) = 27"
  using ge_pow_least_power [of 3 3 10] by simp

section \<open>Properties of the map viewer\<close>

text \<open>The product of a cell value in \<open>[0, 1]\<close> and 100 rounds to a double between 0 and
  100, and its conversion to \<open>int\<close> is defined.\<close>

lemma round_val_100: "round_val 100 = 100"
  by (simp add: rnd_eval)

lemma round_val_0: "round_val 0 = 0"
  by (simp add: rnd_eval)

lemma cell_value_range:
  assumes "v = - 1 \<or> (0 \<le> v \<and> v \<le> 1)"
  shows "\<exists>i. cell_value v = Some i \<and> - 1 \<le> i \<and> i \<le> 100
           \<and> (if v = - 1 then i = - 1 else \<exists>p. dmul (Fin v) (Fin 100) = Fin p \<and> i = \<lfloor>p\<rfloor>)"
proof (cases "v = - 1")
  case True
  then show ?thesis by (simp add: cell_value_def)
next
  case False
  with assms have v: "0 \<le> v * 100" "v * 100 \<le> 100" by auto
  define p where "p = round_val (v * 100)"
  from round_val_mono [OF v] round_val_nonneg [OF v(1)]
  have p: "0 \<le> p" "p \<le> 100" by (simp_all add: p_def round_val_100)
  then have m: "dmul (Fin v) (Fin 100) = Fin p"
    using v(1) by (simp add: rnd_def round_pos_def p_def)
  from p have fl: "0 \<le> \<lfloor>p\<rfloor>" "\<lfloor>p\<rfloor> \<le> 100"
    by (simp_all add: floor_le_iff le_floor_iff)
  with p have "double_to_int (Fin p) = Some \<lfloor>p\<rfloor>"
    by (simp add: double_to_int_def trunc_real_def)
  moreover from fl have "- 1 \<le> \<lfloor>p\<rfloor>" by linarith
  ultimately show ?thesis
    using False m fl(2) by (simp add: cell_value_def)
qed

text \<open>The iteration appends the converted cells row by row.\<close>

lemma push_row_eq:
  "\<forall>c \<in> set row. cell_value c \<noteq> None
     \<Longrightarrow> push_row (Some xs) row = Some (xs @ map (\<lambda>c. word_of_int (the (cell_value c))) row)"
  unfolding push_row_def by (induction row arbitrary: xs) (auto simp: push_cell_def)

lemma foldl_push_row:
  "\<forall>row \<in> set rows. \<forall>c \<in> set row. cell_value c \<noteq> None
     \<Longrightarrow> foldl push_row (Some xs) rows
           = Some (xs @ concat (map (map (\<lambda>c. word_of_int (the (cell_value c)))) rows))"
  by (induction rows arbitrary: xs) (simp_all add: push_row_eq)

lemma map_data_eq:
  "\<forall>row \<in> set (cells m). \<forall>c \<in> set row. cell_value c \<noteq> None
     \<Longrightarrow> map_data m = Some (concat (map (map (\<lambda>c. word_of_int (the (cell_value c)))) (cells m)))"
  using foldl_push_row [of "cells m" "[]"] by (simp add: map_data_def)

lemma length_concat_uniform:
  "\<forall>r \<in> set xss. length r = w \<Longrightarrow> length (concat xss) = w * length xss"
  by (induction xss) simp_all

lemma nth_concat_uniform:
  "\<forall>r \<in> set xss. length r = w \<Longrightarrow> y < length xss \<Longrightarrow> x < w
     \<Longrightarrow> concat xss ! (y * w + x) = xss ! y ! x"
proof (induction xss arbitrary: y)
  case Nil
  then show ?case by simp
next
  case (Cons r xss)
  show ?case
  proof (cases y)
    case 0
    with Cons.prems show ?thesis by (simp add: nth_append)
  next
    case (Suc y')
    with Cons.prems have "concat xss ! (y' * w + x) = xss ! y' ! x"
      by (intro Cons.IH) simp_all
    with Suc Cons.prems show ?thesis
      by (simp add: nth_append add.assoc)
  qed
qed

lemma sint_int8: "- 128 \<le> k \<Longrightarrow> k < 128 \<Longrightarrow> sint (word_of_int k :: 8 word) = k"
  by (simp add: sint_sbintrunc' signed_take_bit_int_eq_self)

text \<open>
  Claim C6, as stated, at a call one second after the last publication with a rate of
  five seconds: \<open>on_map_update\<close> returns before it builds a message, and no cell is
  exported.
\<close>

theorem on_map_update_rate_gate:
  "on_map_update 1 1 1 demo_map demo_viewer = Some demo_viewer \<and> map_pub demo_viewer = []"
  by (simp add: on_map_update_def demo_viewer_def)

text \<open>
  Claim C6, amended. When at least \<open>map_publishing_rate\<close> seconds have passed since the
  last publication, \<open>on_map_update\<close> publishes one message whose \<open>data\<close> holds the
  cells of \<open>cells()\<close> in row-major order: for a map whose \<open>cells()\<close> has \<open>height()\<close>
  rows of \<open>width()\<close> cells with values \<open>- 1\<close> or in \<open>[0, 1]\<close>, that is
  \<open>width() \<times> height()\<close> entries, the entry \<open>y \<sqdot> width() + x\<close> being \<open>- 1\<close> for an
  unknown cell and otherwise the product \<open>value() * 100\<close> of doubles, rounded to a
  double and then cut to an integer, always between \<open>- 1\<close> and 100.
\<close>

theorem on_map_update_raster:
  assumes gate: "\<not> now0 - last_pub_time v < map_publishing_rate v"
    and rows: "length (cells m) = height m"
    and cols: "\<forall>row \<in> set (cells m). length row = width m"
    and vals: "\<forall>row \<in> set (cells m). \<forall>c \<in> set row. c = - 1 \<or> (0 \<le> c \<and> c \<le> 1)"
  shows "\<exists>v' msg. on_map_update now0 now1 now2 m v = Some v'
           \<and> map_pub v' = map_pub v @ [msg]
           \<and> length (data msg) = width m * height m
           \<and> (\<forall>y < height m. \<forall>x < width m.
                 (if cells m ! y ! x = - 1 then sint (data msg ! (y * width m + x)) = - 1
                  else \<exists>p. dmul (Fin (cells m ! y ! x)) (Fin 100) = Fin p
                         \<and> sint (data msg ! (y * width m + x)) = \<lfloor>p\<rfloor>)
                 \<and> - 1 \<le> sint (data msg ! (y * width m + x))
                 \<and> sint (data msg ! (y * width m + x)) \<le> 100)"
proof -
  let ?f = "\<lambda>c. word_of_int (the (cell_value c)) :: 8 word"
  let ?xss = "map (map ?f) (cells m)"
  define d where "d = concat ?xss"
  have some: "\<forall>row \<in> set (cells m). \<forall>c \<in> set row. cell_value c \<noteq> None"
    using vals cell_value_range by fastforce
  have md: "map_data m = Some d"
    unfolding d_def by (rule map_data_eq [OF some])
  have u: "\<forall>r \<in> set ?xss. length r = width m"
    using cols by auto
  have len: "length d = width m * height m"
    using length_concat_uniform [OF u] rows by (simp add: d_def)
  have cell: "(if cells m ! y ! x = - 1 then sint (d ! (y * width m + x)) = - 1
                  else \<exists>p. dmul (Fin (cells m ! y ! x)) (Fin 100) = Fin p
                         \<and> sint (d ! (y * width m + x)) = \<lfloor>p\<rfloor>)
                 \<and> - 1 \<le> sint (d ! (y * width m + x))
                 \<and> sint (d ! (y * width m + x)) \<le> 100"
    if y: "y < height m" and x: "x < width m" for x y
  proof -
    let ?c = "cells m ! y ! x"
    from y rows have yr: "cells m ! y \<in> set (cells m)" by simp
    with cols x have xr: "x < length (cells m ! y)" by simp
    then have "?c \<in> set (cells m ! y)" by simp
    with vals yr have c: "?c = - 1 \<or> (0 \<le> ?c \<and> ?c \<le> 1)" by blast
    have "d ! (y * width m + x) = ?xss ! y ! x"
      unfolding d_def using y rows x by (intro nth_concat_uniform [OF u]) simp_all
    also have "\<dots> = ?f ?c"
      using y rows xr by simp
    finally have e: "d ! (y * width m + x) = ?f ?c" .
    from cell_value_range [OF c] obtain i where i: "cell_value ?c = Some i" "- 1 \<le> i" "i \<le> 100"
      "if ?c = - 1 then i = - 1 else \<exists>p. dmul (Fin ?c) (Fin 100) = Fin p \<and> i = \<lfloor>p\<rfloor>"
      by blast
    from i(2,3) have "sint (word_of_int i :: 8 word) = i"
      by (intro sint_int8) simp_all
    with e i(1) have s: "sint (d ! (y * width m + x)) = i" by simp
    show ?thesis unfolding s using i(2,3,4) by simp
  qed
  define msg where "msg = \<lparr> info = \<lparr> map_load_time = now1,
                                  resolution = scale m,
                                  info_width = width m,
                                  info_height = height m,
                                  origin_position_x = - scale m * of_int (map_center_x m),
                                  origin_position_y = - scale m * of_int (map_center_y m),
                                  origin_position_z = 0 \<rparr>,
                        data = d \<rparr>"
  define v' where "v' = v \<lparr> map_pub := map_pub v @ [msg], last_pub_time := now2 \<rparr>"
  have dm: "data msg = d"
    by (simp add: msg_def)
  from gate md have p: "on_map_update now0 now1 now2 m v = Some v'"
    by (simp add: on_map_update_def msg_def v'_def)
  have q: "map_pub v' = map_pub v @ [msg]"
    by (simp add: v'_def)
  have "length (data msg) = width m * height m
      \<and> (\<forall>y < height m. \<forall>x < width m.
                 (if cells m ! y ! x = - 1 then sint (data msg ! (y * width m + x)) = - 1
                  else \<exists>p. dmul (Fin (cells m ! y ! x)) (Fin 100) = Fin p
                         \<and> sint (data msg ! (y * width m + x)) = \<lfloor>p\<rfloor>)
                 \<and> - 1 \<le> sint (data msg ! (y * width m + x))
                 \<and> sint (data msg ! (y * width m + x)) \<le> 100)"
    unfolding dm using len cell by blast
  with p q show ?thesis by blast
qed

text \<open>An instance: the double nearest to 0.3 is below 0.3, its product with 100 rounds
  to 30, and 30 is what is exported.\<close>

lemma dmul_demo: "dmul (Fin (5404319552844595 / 18014398509481984)) (Fin 100) = Fin 30"
  by (simp add: rnd_eval)

theorem on_map_update_raster_witness:
  "\<exists>v' msg. on_map_update 7 7 7 demo_map demo_viewer = Some v'
      \<and> map_pub v' = [msg]
      \<and> length (data msg) = 2
      \<and> sint (data msg ! 0) = - 1 \<and> sint (data msg ! 1) = 30"
proof -
  have "\<exists>v' msg. on_map_update 7 7 7 demo_map demo_viewer = Some v'
           \<and> map_pub v' = map_pub demo_viewer @ [msg]
           \<and> length (data msg) = width demo_map * height demo_map
           \<and> (\<forall>y < height demo_map. \<forall>x < width demo_map.
                 (if cells demo_map ! y ! x = - 1
                  then sint (data msg ! (y * width demo_map + x)) = - 1
                  else \<exists>p. dmul (Fin (cells demo_map ! y ! x)) (Fin 100) = Fin p
                         \<and> sint (data msg ! (y * width demo_map + x)) = \<lfloor>p\<rfloor>)
                 \<and> - 1 \<le> sint (data msg ! (y * width demo_map + x))
                 \<and> sint (data msg ! (y * width demo_map + x)) \<le> 100)"
    by (rule on_map_update_raster) (simp_all add: demo_map_def demo_viewer_def)
  then obtain v' msg where m: "on_map_update 7 7 7 demo_map demo_viewer = Some v'"
    "map_pub v' = map_pub demo_viewer @ [msg]"
    "length (data msg) = width demo_map * height demo_map"
    and c: "\<forall>y < height demo_map. \<forall>x < width demo_map.
                 (if cells demo_map ! y ! x = - 1
                  then sint (data msg ! (y * width demo_map + x)) = - 1
                  else \<exists>p. dmul (Fin (cells demo_map ! y ! x)) (Fin 100) = Fin p
                         \<and> sint (data msg ! (y * width demo_map + x)) = \<lfloor>p\<rfloor>)
                 \<and> - 1 \<le> sint (data msg ! (y * width demo_map + x))
                 \<and> sint (data msg ! (y * width demo_map + x)) \<le> 100"
    by blast
  have h: "height demo_map = 1" "width demo_map = 2" "map_pub demo_viewer = []"
    "cells demo_map ! 0 ! 0 = - 1"
    "cells demo_map ! 0 ! Suc 0 = 5404319552844595 / 18014398509481984"
    by (simp_all add: demo_map_def demo_viewer_def)
  from c [rule_format, of 0 0] have "sint (data msg ! 0) = - 1"
    by (simp add: h)
  moreover from c [rule_format, of 0 "Suc 0"] have "sint (data msg ! 1) = 30"
    by (simp add: h dmul_demo del: dmul.simps)
  ultimately show ?thesis using m by (simp add: h)
qed

section \<open>Properties of the scan generator\<close>

text \<open>\<open>less_or_equal\<close> on numbers that are in order, or out of order by more than the
  tolerance.\<close>

lemma less_or_equal_True: "a < b \<Longrightarrow> less_or_equal (Fin a) (Fin b) = True"
  by (simp add: less_or_equal_less)

lemma less_or_equal_False:
  assumes "\<bar>a\<bar> < 2 ^ 1024" and "\<bar>b\<bar> < 2 ^ 1024"
    and "1 / 10 ^ 7 * (1 + 1 / 2 ^ 50) * max 1 (max \<bar>a\<bar> \<bar>b\<bar>) < a - b"
  shows "less_or_equal (Fin a) (Fin b) = False"
proof -
  have "\<not> are_equal (Fin a) (Fin b)"
    using are_equal_upper [OF assms(1,2)] assms(3) by fastforce
  moreover have "0 < 1 / 10 ^ 7 * (1 + 1 / 2 ^ 50) * max 1 (max \<bar>a\<bar> \<bar>b\<bar>)"
    by (simp add: max_def)
  with assms(3) have "\<not> a < b" by linarith
  ultimately show ?thesis by (simp add: less_or_equal_def)
qed

text \<open>What a hit says about the march, and how the visited cells unfold.\<close>

lemma march_Some_here: "march m R p d c t = Some r \<Longrightarrow> has_cell m c \<and> \<not> R < t"
  by (subst (asm) march.simps) (simp split: if_splits)

lemma march_Some_step:
  "march m R p d c t = Some r \<Longrightarrow> map_cell_value m c \<noteq> Some 1 \<Longrightarrow>
     \<exists>c' t'. next_cell (scale m) p d c = Some (c', t') \<and> march m R p d c' t' = Some r"
  by (subst (asm) march.simps) (auto split: if_splits option.splits)

lemma march_Some_hit:
  "march m R p d c t = Some r \<Longrightarrow> map_cell_value m c = Some 1 \<Longrightarrow> r = t"
  by (subst (asm) march.simps) (simp split: if_splits)

lemma ray_cells_head:
  "has_cell m c \<Longrightarrow> \<not> R < t \<Longrightarrow> c \<in> set (ray_cells m R p d c t)"
  by (subst ray_cells.simps) (simp split: option.splits)

lemma ray_cells_step:
  "has_cell m c \<Longrightarrow> \<not> R < t \<Longrightarrow> map_cell_value m c \<noteq> Some 1 \<Longrightarrow>
     next_cell (scale m) p d c = Some (c', t') \<Longrightarrow>
     set (ray_cells m R p d c' t') \<subseteq> set (ray_cells m R p d c t)"
  by (subst (2) ray_cells.simps) auto

text \<open>
  Towards a wall in the east the traversal changes the column by single steps, and
  enters a new column at the distance at which the ray crosses the column's face. The
  same holds for the three other directions.
\<close>

lemma next_cell_east:
  assumes "next_cell s p d c = Some (c', t')" and "0 < fst d"
  shows "fst c' = fst c \<or> (fst c' = fst c + 1 \<and> t' = ((of_int (fst c) + 1) * s - fst p) / fst d)"
  using assms
  by (auto simp: next_cell_def axis_step_def axis_cross_def Let_def split: if_splits)

lemma march_wall_east:
  assumes "march m R p d c t = Some r"
    and "0 < fst d"
    and "fst c < cw"
    and "\<forall>cell \<in> set (ray_cells m R p d c t).
            (fst cell < cw \<longrightarrow> map_cell_value m cell \<noteq> Some 1)
          \<and> (fst cell = cw \<longrightarrow> map_cell_value m cell = Some 1)"
  shows "r = (of_int cw * scale m - fst p) / fst d"
  using assms
proof (induction m R p d c t rule: march.induct)
  case (1 m R p d c t)
  note here = march_Some_here [OF "1.prems"(1)]
  then have "c \<in> set (ray_cells m R p d c t)"
    by (simp add: ray_cells_head)
  with "1.prems"(3,4) have free: "map_cell_value m c \<noteq> Some 1" by blast
  from march_Some_step [OF "1.prems"(1) free] obtain c' t' where
    nc: "next_cell (scale m) p d c = Some (c', t')" and rest: "march m R p d c' t' = Some r"
    by blast
  from here free nc have sub: "set (ray_cells m R p d c' t') \<subseteq> set (ray_cells m R p d c t)"
    by (intro ray_cells_step) simp_all
  with "1.prems"(4) have path: "\<forall>cell \<in> set (ray_cells m R p d c' t').
            (fst cell < cw \<longrightarrow> map_cell_value m cell \<noteq> Some 1)
          \<and> (fst cell = cw \<longrightarrow> map_cell_value m cell = Some 1)"
    by blast
  note step = next_cell_east [OF nc "1.prems"(2)]
  show ?case
  proof (cases "fst c' < cw")
    case True
    from here have "\<not> (\<not> has_cell m c \<or> R < t)" by simp
    from "1.IH" [OF this free nc refl rest "1.prems"(2) True path]
    show ?thesis .
  next
    case False
    with step "1.prems"(3) have c': "cw = fst c + 1"
      and t': "t' = ((of_int (fst c) + 1) * scale m - fst p) / fst d"
      by auto
    from c' have "(of_int cw :: real) = of_int (fst c) + 1" by simp
    with t' have t'': "t' = (of_int cw * scale m - fst p) / fst d" by simp
    from False step "1.prems"(3) have on: "fst c' = cw" by auto
    from march_Some_here [OF rest] have "c' \<in> set (ray_cells m R p d c' t')"
      by (simp add: ray_cells_head)
    with path on have "map_cell_value m c' = Some 1" by blast
    from march_Some_hit [OF rest this] t'' show ?thesis by simp
  qed
qed


lemma next_cell_west:
  assumes "next_cell s p d c = Some (c', t')" and "fst d < 0"
  shows "fst c' = fst c \<or> (fst c' = fst c - 1 \<and> t' = (of_int (fst c) * s - fst p) / fst d)"
  using assms
  by (auto simp: next_cell_def axis_step_def axis_cross_def Let_def split: if_splits)

lemma march_wall_west:
  assumes "march m R p d c t = Some r"
    and "fst d < 0"
    and "cw < fst c"
    and "\<forall>cell \<in> set (ray_cells m R p d c t).
            (cw < fst cell \<longrightarrow> map_cell_value m cell \<noteq> Some 1)
          \<and> (fst cell = cw \<longrightarrow> map_cell_value m cell = Some 1)"
  shows "r = ((of_int cw + 1) * scale m - fst p) / fst d"
  using assms
proof (induction m R p d c t rule: march.induct)
  case (1 m R p d c t)
  note here = march_Some_here [OF "1.prems"(1)]
  then have "c \<in> set (ray_cells m R p d c t)"
    by (simp add: ray_cells_head)
  with "1.prems"(3,4) have free: "map_cell_value m c \<noteq> Some 1" by blast
  from march_Some_step [OF "1.prems"(1) free] obtain c' t' where
    nc: "next_cell (scale m) p d c = Some (c', t')" and rest: "march m R p d c' t' = Some r"
    by blast
  from here free nc have sub: "set (ray_cells m R p d c' t') \<subseteq> set (ray_cells m R p d c t)"
    by (intro ray_cells_step) simp_all
  with "1.prems"(4) have path: "\<forall>cell \<in> set (ray_cells m R p d c' t').
            (cw < fst cell \<longrightarrow> map_cell_value m cell \<noteq> Some 1)
          \<and> (fst cell = cw \<longrightarrow> map_cell_value m cell = Some 1)"
    by blast
  note step = next_cell_west [OF nc "1.prems"(2)]
  show ?case
  proof (cases "cw < fst c'")
    case True
    from here have "\<not> (\<not> has_cell m c \<or> R < t)" by simp
    from "1.IH" [OF this free nc refl rest "1.prems"(2) True path]
    show ?thesis .
  next
    case False
    with step "1.prems"(3) have c': "fst c = cw + 1"
      and t': "t' = (of_int (fst c) * scale m - fst p) / fst d"
      by auto
    from c' have "(of_int (fst c) :: real) = of_int cw + 1" by simp
    with t' have t'': "t' = ((of_int cw + 1) * scale m - fst p) / fst d" by simp
    from False step "1.prems"(3) have on: "fst c' = cw" by auto
    from march_Some_here [OF rest] have "c' \<in> set (ray_cells m R p d c' t')"
      by (simp add: ray_cells_head)
    with path on have "map_cell_value m c' = Some 1" by blast
    from march_Some_hit [OF rest this] t'' show ?thesis by simp
  qed
qed


lemma next_cell_north:
  assumes "next_cell s p d c = Some (c', t')" and "0 < snd d"
  shows "snd c' = snd c \<or> (snd c' = snd c + 1 \<and> t' = ((of_int (snd c) + 1) * s - snd p) / snd d)"
  using assms
  by (auto simp: next_cell_def axis_step_def axis_cross_def Let_def split: if_splits)

lemma march_wall_north:
  assumes "march m R p d c t = Some r"
    and "0 < snd d"
    and "snd c < cw"
    and "\<forall>cell \<in> set (ray_cells m R p d c t).
            (snd cell < cw \<longrightarrow> map_cell_value m cell \<noteq> Some 1)
          \<and> (snd cell = cw \<longrightarrow> map_cell_value m cell = Some 1)"
  shows "r = (of_int cw * scale m - snd p) / snd d"
  using assms
proof (induction m R p d c t rule: march.induct)
  case (1 m R p d c t)
  note here = march_Some_here [OF "1.prems"(1)]
  then have "c \<in> set (ray_cells m R p d c t)"
    by (simp add: ray_cells_head)
  with "1.prems"(3,4) have free: "map_cell_value m c \<noteq> Some 1" by blast
  from march_Some_step [OF "1.prems"(1) free] obtain c' t' where
    nc: "next_cell (scale m) p d c = Some (c', t')" and rest: "march m R p d c' t' = Some r"
    by blast
  from here free nc have sub: "set (ray_cells m R p d c' t') \<subseteq> set (ray_cells m R p d c t)"
    by (intro ray_cells_step) simp_all
  with "1.prems"(4) have path: "\<forall>cell \<in> set (ray_cells m R p d c' t').
            (snd cell < cw \<longrightarrow> map_cell_value m cell \<noteq> Some 1)
          \<and> (snd cell = cw \<longrightarrow> map_cell_value m cell = Some 1)"
    by blast
  note step = next_cell_north [OF nc "1.prems"(2)]
  show ?case
  proof (cases "snd c' < cw")
    case True
    from here have "\<not> (\<not> has_cell m c \<or> R < t)" by simp
    from "1.IH" [OF this free nc refl rest "1.prems"(2) True path]
    show ?thesis .
  next
    case False
    with step "1.prems"(3) have c': "cw = snd c + 1"
      and t': "t' = ((of_int (snd c) + 1) * scale m - snd p) / snd d"
      by auto
    from c' have "(of_int cw :: real) = of_int (snd c) + 1" by simp
    with t' have t'': "t' = (of_int cw * scale m - snd p) / snd d" by simp
    from False step "1.prems"(3) have on: "snd c' = cw" by auto
    from march_Some_here [OF rest] have "c' \<in> set (ray_cells m R p d c' t')"
      by (simp add: ray_cells_head)
    with path on have "map_cell_value m c' = Some 1" by blast
    from march_Some_hit [OF rest this] t'' show ?thesis by simp
  qed
qed


lemma next_cell_south:
  assumes "next_cell s p d c = Some (c', t')" and "snd d < 0"
  shows "snd c' = snd c \<or> (snd c' = snd c - 1 \<and> t' = (of_int (snd c) * s - snd p) / snd d)"
  using assms
  by (auto simp: next_cell_def axis_step_def axis_cross_def Let_def split: if_splits)

lemma march_wall_south:
  assumes "march m R p d c t = Some r"
    and "snd d < 0"
    and "cw < snd c"
    and "\<forall>cell \<in> set (ray_cells m R p d c t).
            (cw < snd cell \<longrightarrow> map_cell_value m cell \<noteq> Some 1)
          \<and> (snd cell = cw \<longrightarrow> map_cell_value m cell = Some 1)"
  shows "r = ((of_int cw + 1) * scale m - snd p) / snd d"
  using assms
proof (induction m R p d c t rule: march.induct)
  case (1 m R p d c t)
  note here = march_Some_here [OF "1.prems"(1)]
  then have "c \<in> set (ray_cells m R p d c t)"
    by (simp add: ray_cells_head)
  with "1.prems"(3,4) have free: "map_cell_value m c \<noteq> Some 1" by blast
  from march_Some_step [OF "1.prems"(1) free] obtain c' t' where
    nc: "next_cell (scale m) p d c = Some (c', t')" and rest: "march m R p d c' t' = Some r"
    by blast
  from here free nc have sub: "set (ray_cells m R p d c' t') \<subseteq> set (ray_cells m R p d c t)"
    by (intro ray_cells_step) simp_all
  with "1.prems"(4) have path: "\<forall>cell \<in> set (ray_cells m R p d c' t').
            (cw < snd cell \<longrightarrow> map_cell_value m cell \<noteq> Some 1)
          \<and> (snd cell = cw \<longrightarrow> map_cell_value m cell = Some 1)"
    by blast
  note step = next_cell_south [OF nc "1.prems"(2)]
  show ?case
  proof (cases "cw < snd c'")
    case True
    from here have "\<not> (\<not> has_cell m c \<or> R < t)" by simp
    from "1.IH" [OF this free nc refl rest "1.prems"(2) True path]
    show ?thesis .
  next
    case False
    with step "1.prems"(3) have c': "snd c = cw + 1"
      and t': "t' = (of_int (snd c) * scale m - snd p) / snd d"
      by auto
    from c' have "(of_int (snd c) :: real) = of_int cw + 1" by simp
    with t' have t'': "t' = ((of_int cw + 1) * scale m - snd p) / snd d" by simp
    from False step "1.prems"(3) have on: "snd c' = cw" by auto
    from march_Some_here [OF rest] have "c' \<in> set (ray_cells m R p d c' t')"
      by (simp add: ray_cells_head)
    with path on have "map_cell_value m c' = Some 1" by blast
    from march_Some_hit [OF rest this] t'' show ?thesis by simp
  qed
qed


lemma cast_beam_hit:
  "cast_beam m p pose b = [pt] \<Longrightarrow>
     march m (max_range p) (rp_x pose, rp_y pose)
       (cos (rp_theta pose + b), sin (rp_theta pose + b))
       (world_to_cell m (rp_x pose) (rp_y pose)) 0 = Some (sp_range pt)"
  by (auto simp: cast_beam_def split: option.splits)

lemma cos_minus_half_pi: "cos (a - pi / 2) = sin a"
  by (simp add: cos_diff)

lemma cos_plus_half_pi: "cos (a + pi / 2) = - sin a"
  by (simp add: cos_add)

text \<open>
  Claim C5. For every beam that strikes a flat wall at the incidence angle \<open>\<alpha>\<close>
  relative to the wall's normal, the range recorded is the perpendicular distance from
  the sensor to the wall divided by \<open>cos \<alpha>\<close>. The beam \<open>b\<close> registers the hit \<open>pt\<close>,
  the wall is the line \<open>k\<close> on the given side of the sensor, and \<open>\<alpha>\<close> is the angle
  between the beam's direction and the wall's normal.
\<close>

theorem oblique_incidence_range:
  assumes hit: "cast_beam m p pose b = [pt]"
    and wall: "flat_wall m side k (beam_cells m p pose b)"
    and start: "before_wall side k (world_to_cell m (rp_x pose) (rp_y pose))"
    and towards: "0 < cos (rp_theta pose + b - normal_angle side)"
  shows "sp_range pt = wall_distance m pose side k / cos (rp_theta pose + b - normal_angle side)"
proof -
  let ?a = "rp_theta pose + b"
  note m = cast_beam_hit [OF hit]
  note w = wall [unfolded flat_wall_def beam_cells_def]
  show ?thesis
  proof (cases side)
    case East
    with w start towards march_wall_east [OF m, of k] show ?thesis by simp
  next
    case West
    with towards have "cos ?a < 0" by simp
    with West w start march_wall_west [OF m, of k]
    have "sp_range pt = ((of_int k + 1) * scale m - rp_x pose) / cos ?a" by simp
    also have "\<dots> = (rp_x pose - (of_int k + 1) * scale m) / (- cos ?a)"
      by (simp add: divide_simps)
    finally show ?thesis using West by simp
  next
    case North
    with towards have "0 < sin ?a" by (simp add: cos_minus_half_pi)
    with North w start march_wall_north [OF m, of k]
    show ?thesis by (simp add: cos_minus_half_pi)
  next
    case South
    with towards have "sin ?a < 0" by (simp add: cos_plus_half_pi)
    with South w start march_wall_south [OF m, of k]
    have "sp_range pt = ((of_int k + 1) * scale m - rp_y pose) / sin ?a" by simp
    also have "\<dots> = (rp_y pose - (of_int k + 1) * scale m) / (- sin ?a)"
      by (simp add: divide_simps)
    finally show ?thesis using South by (simp add: cos_plus_half_pi)
  qed
qed

text \<open>An instance: incidence \<open>arccos (4 / 5)\<close>, about 37 degrees, on the wall piece of
  \<open>corner_map\<close>, two and a half cells away.\<close>

lemma sin_arccos_4_5: "sin (arccos (4 / 5)) = 3 / 5"
proof -
  have "sin (arccos (4 / 5)) = sqrt (1 - (4 / 5)\<^sup>2)"
    by (rule sin_arccos) simp_all
  also have "1 - (4 / 5 :: real)\<^sup>2 = (3 / 5)\<^sup>2"
    by (simp add: power2_eq_square)
  also have "sqrt ((3 / 5)\<^sup>2) = 3 / 5"
    by (simp only: real_sqrt_abs)
  finally show ?thesis .
qed

lemma has_cell_corner_map:
  "has_cell corner_map (cx, cy) \<longleftrightarrow> 0 \<le> cx \<and> cx < 4 \<and> 0 \<le> cy \<and> cy < 4"
  by (simp add: has_cell_def corner_map_def)

lemma scale_corner_map: "scale corner_map = 1"
  by (simp add: corner_map_def)

lemma cells_corner_map:
  "cells corner_map = [ [0, 0, 0, 0], [0, 0, 0, 0], [0, 0, 0, 1], [0, 0, 0, 1] ]"
  by (simp add: corner_map_def)

lemma map_center_corner_map: "map_center_x corner_map = 0" "map_center_y corner_map = 0"
  by (simp_all add: corner_map_def)

lemmas corner_eval = has_cell_corner_map scale_corner_map cells_corner_map map_center_corner_map
  map_cell_value_def next_cell_def axis_cross_def axis_step_def less_or_equal_True
  less_or_equal_False Let_def

lemma march_corner_map:
  "march corner_map 10 (1 / 2, 1 / 2) (4 / 5, 3 / 5) (0, 0) 0 = Some (25 / 8)"
  by (simp add: march.simps corner_eval)

lemma ray_cells_corner_map:
  "ray_cells corner_map 10 (1 / 2, 1 / 2) (4 / 5, 3 / 5) (0, 0) 0
     = [(0, 0), (1, 0), (1, 1), (2, 1), (2, 2), (3, 2)]"
  by (simp add: ray_cells.simps corner_eval)

lemma cast_beam_corner_map:
  "cast_beam corner_map corner_params corner_pose (arccos (4 / 5))
     = [\<lparr> sp_range = 25 / 8, sp_angle = normalize_angle (arccos (4 / 5)), sp_is_occupied = True \<rparr>]"
  by (simp add: cast_beam_def corner_params_def corner_pose_def sin_arccos_4_5 world_to_cell_def
      march_corner_map scale_corner_map)

lemma flat_wall_corner_map:
  "flat_wall corner_map East 3 (beam_cells corner_map corner_params corner_pose (arccos (4 / 5)))"
  by (simp add: flat_wall_def beam_cells_def corner_params_def corner_pose_def sin_arccos_4_5
      world_to_cell_def ray_cells_corner_map scale_corner_map map_cell_value_def
      has_cell_corner_map cells_corner_map map_center_corner_map)

theorem oblique_incidence_range_witness:
  "cast_beam corner_map corner_params corner_pose (arccos (4 / 5))
     = [\<lparr> sp_range = 25 / 8, sp_angle = normalize_angle (arccos (4 / 5)), sp_is_occupied = True \<rparr>]
   \<and> flat_wall corner_map East 3 (beam_cells corner_map corner_params corner_pose (arccos (4 / 5)))
   \<and> before_wall East 3 (world_to_cell corner_map (rp_x corner_pose) (rp_y corner_pose))
   \<and> 0 < cos (rp_theta corner_pose + arccos (4 / 5) - normal_angle East)
   \<and> (25 / 8 :: real) = wall_distance corner_map corner_pose East 3
                           / cos (rp_theta corner_pose + arccos (4 / 5) - normal_angle East)"
proof -
  have s: "before_wall East 3 (world_to_cell corner_map (rp_x corner_pose) (rp_y corner_pose))"
    by (simp add: world_to_cell_def corner_pose_def scale_corner_map)
  have t: "0 < cos (rp_theta corner_pose + arccos (4 / 5) - normal_angle East)"
    by (simp add: corner_pose_def)
  from oblique_incidence_range [OF cast_beam_corner_map flat_wall_corner_map s t]
    cast_beam_corner_map flat_wall_corner_map s t
  show ?thesis by simp
qed

lemma cast_beam_inside:
  assumes "map_cell_value m (world_to_cell m (rp_x pose) (rp_y pose)) = Some 1"
    and "0 \<le> max_range p"
  shows "cast_beam m p pose b = [\<lparr> sp_range = 0, sp_angle = normalize_angle b, sp_is_occupied = True \<rparr>]"
proof -
  from assms(1) have "has_cell m (world_to_cell m (rp_x pose) (rp_y pose))"
    by (simp add: map_cell_value_def split: if_splits)
  with assms show ?thesis
    by (simp add: cast_beam_def march.simps)
qed

lemma concat_singletons: "(\<And>b. f b = [g b]) \<Longrightarrow> concat (map f bs) = map g bs"
  by (induction bs) simp_all

text \<open>
  Claim C4. For every pose whose position lies in a cell whose value is 1 and for every
  scan configuration, \<open>generate_2D_laser_scan\<close> returns one scan point for every
  configured beam, each with range 0: the start cell is tested before any marching.
\<close>

theorem scan_inside_obstacle:
  assumes "make_LaserScannerParams mr st ma = Some p"
    and "map_cell_value m (world_to_cell m (rp_x pose) (rp_y pose)) = Some 1"
  shows "map sp_range (generate_2D_laser_scan p m pose step) = map (\<lambda>b. 0) (beam_angles p)
    \<and> length (generate_2D_laser_scan p m pose step) = length (beam_angles p)"
proof -
  from assms(1) have "0 \<le> max_range p"
    by (auto simp: make_LaserScannerParams_def split: if_splits)
  from cast_beam_inside [OF assms(2) this]
  have "generate_2D_laser_scan p m pose step
      = map (\<lambda>b. \<lparr> sp_range = 0, sp_angle = normalize_angle b, sp_is_occupied = True \<rparr>) (beam_angles p)"
    unfolding generate_2D_laser_scan_def by (rule concat_singletons)
  then show ?thesis by (simp add: comp_def)
qed

theorem scan_inside_obstacle_witness:
  "make_LaserScannerParams 10 (pi / 2) pi = Some corner_params
   \<and> map_cell_value corner_map (world_to_cell corner_map (rp_x inside_pose) (rp_y inside_pose)) = Some 1
   \<and> map sp_range (generate_2D_laser_scan corner_params corner_map inside_pose 1)
       = map (\<lambda>b. 0) (beam_angles corner_params)
   \<and> length (generate_2D_laser_scan corner_params corner_map inside_pose 1)
       = length (beam_angles corner_params)"
proof -
  have p: "make_LaserScannerParams 10 (pi / 2) pi = Some corner_params"
    using pi_gt_zero by (simp add: make_LaserScannerParams_def corner_params_def not_le)
  have "world_to_cell corner_map (rp_x inside_pose) (rp_y inside_pose) = (3, 2)"
    by (simp add: world_to_cell_def inside_pose_def scale_corner_map)
  then have v: "map_cell_value corner_map
      (world_to_cell corner_map (rp_x inside_pose) (rp_y inside_pose)) = Some 1"
    by (simp add: map_cell_value_def has_cell_corner_map cells_corner_map map_center_corner_map)
  from scan_inside_obstacle [OF p v, of 1] p v show ?thesis by simp
qed

section \<open>The scan at the centre of the corridor\<close>

text \<open>A ray straight down a column without occupied cells is a miss.\<close>

lemma march_miss_south:
  assumes "fst d = 0" and "snd d < 0"
    and "\<forall>cy \<le> snd c. map_cell_value m (fst c, cy) \<noteq> Some 1"
  shows "march m R p d c t = None"
  using assms
proof (induction m R p d c t rule: march.induct)
  case (1 m R p d c t)
  show ?case
  proof (cases "\<not> has_cell m c \<or> R < t")
    case True
    then show ?thesis by (subst march.simps) simp
  next
    case False
    from "1.prems"(3) have free: "map_cell_value m c \<noteq> Some 1"
      by (metis order_refl prod.collapse)
    from "1.prems"(1,2) have nc: "next_cell (scale m) p d c
        = Some ((fst c, snd c - 1), axis_cross (scale m) (snd p) (snd d) (snd c))"
      by (simp add: next_cell_def axis_step_def Let_def)
    have "march m R p d (fst c, snd c - 1) (axis_cross (scale m) (snd p) (snd d) (snd c)) = None"
      using "1.prems" by (intro "1.IH" [OF False free nc refl]) simp_all
    with False free nc show ?thesis
      by (subst march.simps) simp
  qed
qed

text \<open>A step of the traversal crosses the face of the next column, or it crosses the
  face of the next row, and then strictly before the face of the next column.\<close>

lemma next_cell_cases:
  assumes "fst d \<noteq> 0"
  shows "next_cell s p d c
           = Some ((fst c + axis_step (fst d), snd c), axis_cross s (fst p) (fst d) (fst c))
         \<or> (next_cell s p d c
               = Some ((fst c, snd c + axis_step (snd d)), axis_cross s (snd p) (snd d) (snd c))
             \<and> snd d \<noteq> 0
             \<and> axis_cross s (snd p) (snd d) (snd c) < axis_cross s (fst p) (fst d) (fst c))"
  using assms not_less_or_equal
  by (auto simp: next_cell_def Let_def)

lemma march_step:
  "has_cell m c \<Longrightarrow> \<not> R < t \<Longrightarrow> map_cell_value m c \<noteq> Some 1
     \<Longrightarrow> next_cell (scale m) p d c = Some (c', t')
     \<Longrightarrow> march m R p d c t = march m R p d c' t'"
  by (subst march.simps) simp

lemma march_hit: "map_cell_value m c = Some 1 \<Longrightarrow> \<not> R < t \<Longrightarrow> march m R p d c t = Some t"
  by (subst march.simps) (simp add: map_cell_value_def split: if_splits)

text \<open>
  A ray towards the west in a block of free cells, the columns above \<open>cw\<close> in the rows
  \<open>rlo\<close> to \<open>rhi\<close>, reaches the column \<open>cw\<close> with the entry distance \<open>T\<close> of that column
  when it meets the column's face between the rows \<open>rlo\<close> and \<open>rhi\<close> and within the range.
  The same holds towards the east.
\<close>

lemma march_reach_west:
  assumes s: "0 < scale m" and dx: "fst d < 0"
    and T: "T = ((of_int cw + 1) * scale m - fst p) / fst d"
    and TR: "T \<le> R"
    and up: "0 < snd d \<Longrightarrow> snd p + T * snd d \<le> (of_int rhi + 1) * scale m"
    and down: "snd d < 0 \<Longrightarrow> of_int rlo * scale m \<le> snd p + T * snd d"
    and free: "\<And>cx cy. cw < cx \<Longrightarrow> cx \<le> c0 \<Longrightarrow> rlo \<le> cy \<Longrightarrow> cy \<le> rhi
                 \<Longrightarrow> has_cell m (cx, cy) \<and> map_cell_value m (cx, cy) \<noteq> Some 1"
    and wall: "\<And>cy. rlo \<le> cy \<Longrightarrow> cy \<le> rhi \<Longrightarrow> map_cell_value m (cw, cy) = Some 1"
    and c: "cw < fst c" "fst c \<le> c0" "rlo \<le> snd c" "snd c \<le> rhi"
    and t: "t \<le> T"
  shows "march m R p d c t = Some T"
  using assms
proof (induction m R p d c t rule: march.induct)
  case (1 m R p d c t)
  note s = "1.prems"(1) and dx = "1.prems"(2) and T = "1.prems"(3) and TR = "1.prems"(4)
    and up = "1.prems"(5) and down = "1.prems"(6) and free = "1.prems"(7)
    and wall = "1.prems"(8) and c = "1.prems"(9-12) and t = "1.prems"(13)
  have "has_cell m (fst c, snd c) \<and> map_cell_value m (fst c, snd c) \<noteq> Some 1"
    by (rule free [OF c])
  then have hc: "has_cell m c" and fr: "map_cell_value m c \<noteq> Some 1"
    unfolding prod.collapse by blast+
  from t TR have rt: "\<not> R < t" by simp
  from hc rt have here: "\<not> (\<not> has_cell m c \<or> R < t)" by simp
  define tx where "tx = axis_cross (scale m) (fst p) (fst d) (fst c)"
  define ty where "ty = axis_cross (scale m) (snd p) (snd d) (snd c)"
  have txv: "tx = (of_int (fst c) * scale m - fst p) / fst d"
    using dx by (simp add: tx_def axis_cross_def)
  have "(of_int cw + 1) * scale m \<le> of_int (fst c) * scale m"
    using c(1) s by (intro mult_right_mono) simp_all
  then have txT: "tx \<le> T"
    unfolding txv T using dx by (intro divide_right_mono_neg) simp_all
  from dx have ax: "axis_step (fst d) = - 1" by (simp add: axis_step_def)
  from dx have "fst d \<noteq> 0" by simp
  from next_cell_cases [OF this, of "scale m" p c]
  consider (x) "next_cell (scale m) p d c = Some ((fst c - 1, snd c), tx)"
    | (y) "next_cell (scale m) p d c = Some ((fst c, snd c + axis_step (snd d)), ty)"
          "snd d \<noteq> 0" "ty < tx"
    unfolding tx_def ty_def ax by auto
  then show ?case
  proof cases
    case x
    note st = march_step [OF hc rt fr x]
    show ?thesis
    proof (cases "fst c - 1 = cw")
      case True
      then have "fst c = cw + 1" by simp
      then have e: "tx = T" unfolding txv T by simp
      from wall [OF c(3,4)] have w: "map_cell_value m (cw, snd c) = Some 1" .
      from TR have "\<not> R < T" by simp
      from march_hit [OF w this] show ?thesis
        unfolding st True e .
    next
      case False
      with c(1) have lt: "cw < fst c - 1" by simp
      have "march m R p d (fst c - 1, snd c) tx = Some T"
        using c lt txT
        by (intro "1.IH" [OF here fr x refl s dx T TR up down free wall]) simp_all
      then show ?thesis unfolding st .
    qed
  next
    case y
    note st = march_step [OF hc rt fr y(1)]
    from y(3) txT have tyT: "ty < T" by simp
    have rows: "rlo \<le> snd c + axis_step (snd d) \<and> snd c + axis_step (snd d) \<le> rhi"
    proof (cases "0 < snd d")
      case True
      then have tyv: "ty = ((of_int (snd c) + 1) * scale m - snd p) / snd d"
        by (simp add: ty_def axis_cross_def)
      from tyT True have "(of_int (snd c) + 1) * scale m - snd p < T * snd d"
        unfolding tyv by (simp add: pos_divide_less_eq)
      with up [OF True] have "(of_int (snd c) + 1) * scale m < (of_int rhi + 1) * scale m"
        by linarith
      with s have "(of_int (snd c) + 1 :: real) < of_int rhi + 1"
        by (simp add: mult_less_cancel_right_pos)
      then have "snd c < rhi" by simp
      with True c(3) show ?thesis by (simp add: axis_step_def)
    next
      case False
      with y(2) have neg: "snd d < 0" by simp
      then have tyv: "ty = (of_int (snd c) * scale m - snd p) / snd d"
        by (simp add: ty_def axis_cross_def)
      from tyT neg have "T * snd d < of_int (snd c) * scale m - snd p"
        unfolding tyv by (simp add: neg_divide_less_eq)
      with down [OF neg] have "of_int rlo * scale m < of_int (snd c) * scale m"
        by linarith
      with s have "(of_int rlo :: real) < of_int (snd c)"
        by (simp add: mult_less_cancel_right_pos)
      then have "rlo < snd c" by simp
      with neg c(4) show ?thesis by (simp add: axis_step_def)
    qed
    have "march m R p d (fst c, snd c + axis_step (snd d)) ty = Some T"
      using c rows tyT
      by (intro "1.IH" [OF here fr y(1) refl s dx T TR up down free wall]) simp_all
    then show ?thesis unfolding st .
  qed
qed

lemma march_reach_east:
  assumes s: "0 < scale m" and dx: "0 < fst d"
    and T: "T = (of_int cw * scale m - fst p) / fst d"
    and TR: "T \<le> R"
    and up: "0 < snd d \<Longrightarrow> snd p + T * snd d \<le> (of_int rhi + 1) * scale m"
    and down: "snd d < 0 \<Longrightarrow> of_int rlo * scale m \<le> snd p + T * snd d"
    and free: "\<And>cx cy. c0 \<le> cx \<Longrightarrow> cx < cw \<Longrightarrow> rlo \<le> cy \<Longrightarrow> cy \<le> rhi
                 \<Longrightarrow> has_cell m (cx, cy) \<and> map_cell_value m (cx, cy) \<noteq> Some 1"
    and wall: "\<And>cy. rlo \<le> cy \<Longrightarrow> cy \<le> rhi \<Longrightarrow> map_cell_value m (cw, cy) = Some 1"
    and c: "c0 \<le> fst c" "fst c < cw" "rlo \<le> snd c" "snd c \<le> rhi"
    and t: "t \<le> T"
  shows "march m R p d c t = Some T"
  using assms
proof (induction m R p d c t rule: march.induct)
  case (1 m R p d c t)
  note s = "1.prems"(1) and dx = "1.prems"(2) and T = "1.prems"(3) and TR = "1.prems"(4)
    and up = "1.prems"(5) and down = "1.prems"(6) and free = "1.prems"(7)
    and wall = "1.prems"(8) and c = "1.prems"(9-12) and t = "1.prems"(13)
  have "has_cell m (fst c, snd c) \<and> map_cell_value m (fst c, snd c) \<noteq> Some 1"
    by (rule free [OF c])
  then have hc: "has_cell m c" and fr: "map_cell_value m c \<noteq> Some 1"
    unfolding prod.collapse by blast+
  from t TR have rt: "\<not> R < t" by simp
  from hc rt have here: "\<not> (\<not> has_cell m c \<or> R < t)" by simp
  define tx where "tx = axis_cross (scale m) (fst p) (fst d) (fst c)"
  define ty where "ty = axis_cross (scale m) (snd p) (snd d) (snd c)"
  have txv: "tx = ((of_int (fst c) + 1) * scale m - fst p) / fst d"
    using dx by (simp add: tx_def axis_cross_def)
  from c(2) have "fst c + 1 \<le> cw" by simp
  then have "(of_int (fst c) + 1 :: real) \<le> of_int cw"
    by (metis of_int_1 of_int_add of_int_le_iff)
  then have "(of_int (fst c) + 1) * scale m \<le> of_int cw * scale m"
    using s by (intro mult_right_mono) simp_all
  then have txT: "tx \<le> T"
    unfolding txv T using dx by (intro divide_right_mono) simp_all
  from dx have ax: "axis_step (fst d) = 1" by (simp add: axis_step_def)
  from dx have "fst d \<noteq> 0" by simp
  from next_cell_cases [OF this, of "scale m" p c]
  consider (x) "next_cell (scale m) p d c = Some ((fst c + 1, snd c), tx)"
    | (y) "next_cell (scale m) p d c = Some ((fst c, snd c + axis_step (snd d)), ty)"
          "snd d \<noteq> 0" "ty < tx"
    unfolding tx_def ty_def ax by auto
  then show ?case
  proof cases
    case x
    note st = march_step [OF hc rt fr x]
    show ?thesis
    proof (cases "fst c + 1 = cw")
      case True
      then have "(of_int (fst c) + 1 :: real) = of_int cw"
        by (metis of_int_1 of_int_add)
      then have e: "tx = T" unfolding txv T by simp
      from wall [OF c(3,4)] have w: "map_cell_value m (cw, snd c) = Some 1" .
      from TR have "\<not> R < T" by simp
      from march_hit [OF w this] show ?thesis
        unfolding st True e .
    next
      case False
      with c(2) have lt: "fst c + 1 < cw" by simp
      have "march m R p d (fst c + 1, snd c) tx = Some T"
        using c lt txT
        by (intro "1.IH" [OF here fr x refl s dx T TR up down free wall]) simp_all
      then show ?thesis unfolding st .
    qed
  next
    case y
    note st = march_step [OF hc rt fr y(1)]
    from y(3) txT have tyT: "ty < T" by simp
    have rows: "rlo \<le> snd c + axis_step (snd d) \<and> snd c + axis_step (snd d) \<le> rhi"
    proof (cases "0 < snd d")
      case True
      then have tyv: "ty = ((of_int (snd c) + 1) * scale m - snd p) / snd d"
        by (simp add: ty_def axis_cross_def)
      from tyT True have "(of_int (snd c) + 1) * scale m - snd p < T * snd d"
        unfolding tyv by (simp add: pos_divide_less_eq)
      with up [OF True] have "(of_int (snd c) + 1) * scale m < (of_int rhi + 1) * scale m"
        by linarith
      with s have "(of_int (snd c) + 1 :: real) < of_int rhi + 1"
        by (simp add: mult_less_cancel_right_pos)
      then have "snd c < rhi" by simp
      with True c(3) show ?thesis by (simp add: axis_step_def)
    next
      case False
      with y(2) have neg: "snd d < 0" by simp
      then have tyv: "ty = (of_int (snd c) * scale m - snd p) / snd d"
        by (simp add: ty_def axis_cross_def)
      from tyT neg have "T * snd d < of_int (snd c) * scale m - snd p"
        unfolding tyv by (simp add: neg_divide_less_eq)
      with down [OF neg] have "of_int rlo * scale m < of_int (snd c) * scale m"
        by linarith
      with s have "(of_int rlo :: real) < of_int (snd c)"
        by (simp add: mult_less_cancel_right_pos)
      then have "rlo < snd c" by simp
      with neg c(4) show ?thesis by (simp add: axis_step_def)
    qed
    have "march m R p d (fst c, snd c + axis_step (snd d)) ty = Some T"
      using c rows tyT
      by (intro "1.IH" [OF here fr y(1) refl s dx T TR up down free wall]) simp_all
    then show ?thesis unfolding st .
  qed
qed

text \<open>
  Up to an incidence of \<open>5 \<pi> / 16\<close>, 56.25 degrees, the cosine is at least one half and
  the tangent at most \<open>3 / 2\<close>: by Machin's formula \<open>\<pi> / 16 < arctan (1 / 5)\<close>, and
  \<open>arctan (3 / 2) = \<pi> / 4 + arctan (1 / 5)\<close>.
\<close>

lemma pi_16_less_arctan: "pi / 16 < arctan (1 / 5)"
proof -
  have "0 < arctan (1 / 239 :: real)"
    by simp
  with machin show ?thesis by linarith
qed

lemma arctan_3_2: "arctan (3 / 2) = pi / 4 + arctan (1 / 5)"
proof -
  have "arctan 1 + arctan (1 / 5) = arctan ((1 + 1 / 5) / (1 - 1 * (1 / 5)))"
    by (rule arctan_add) simp_all
  then show ?thesis by (simp add: arctan_one)
qed

lemma incidence_bounds_nonneg:
  assumes "0 \<le> a" and "a \<le> 5 * pi / 16"
  shows "1 / 2 \<le> cos a" and "sin a \<le> 3 / 2 * cos a" and "0 \<le> sin a"
proof -
  show "0 \<le> sin a"
    using assms pi_gt_zero by (intro sin_ge_zero) simp_all
  have "cos (pi / 3) \<le> cos a"
    using assms pi_gt_zero by (intro cos_monotone_0_pi_le) simp_all
  then show c: "1 / 2 \<le> cos a" by (simp add: cos_60)
  have lt: "a < arctan (3 / 2)"
    using assms(2) pi_16_less_arctan unfolding arctan_3_2 by linarith
  have "arctan (3 / 2 :: real) < pi / 2" by (rule arctan_ubound)
  with lt assms(1) pi_gt_zero have "tan a < tan (arctan (3 / 2))"
    by (intro tan_monotone) simp_all
  then have "tan a < 3 / 2" by (simp add: tan_arctan)
  then have "sin a / cos a < 3 / 2" by (simp add: tan_def)
  with c show "sin a \<le> 3 / 2 * cos a"
    by (simp add: pos_divide_less_eq mult.commute)
qed

lemma incidence_bounds:
  assumes "\<bar>a\<bar> \<le> 5 * pi / 16"
  shows "1 / 2 \<le> cos a" and "\<bar>sin a\<bar> \<le> 3 / 2 * cos a"
proof -
  have "1 / 2 \<le> cos a \<and> \<bar>sin a\<bar> \<le> 3 / 2 * cos a"
  proof (cases "0 \<le> a")
    case True
    with assms have "a \<le> 5 * pi / 16" by simp
    from incidence_bounds_nonneg [OF True this] show ?thesis by simp
  next
    case False
    with assms have "0 \<le> - a" "- a \<le> 5 * pi / 16" by simp_all
    from incidence_bounds_nonneg [OF this] show ?thesis by simp
  qed
  then show "1 / 2 \<le> cos a" and "\<bar>sin a\<bar> \<le> 3 / 2 * cos a" by simp_all
qed

text \<open>The pose of the test is the middle of the cell \<open>(15, - 20)\<close>, facing down.\<close>

lemma cecumCenter_rpose_eq:
  "cecumCenter_rpose = \<lparr> rp_x = 31 / 2, rp_y = - 39 / 2, rp_theta = - pi / 2 \<rparr>"
  by (simp add: cecumCenter_rpose_def pose_plus_def fixture_rpose_def Map_Scale_def
      Cecum_Patch_W_def Patch_Scale_def Cecum_Free_Y_Start_def Cecum_Free_H_def cdiv_def deg2rad_def)

text \<open>The cells of the fixture's map: the free block of the corridor, the columns 10 to
  19 in the rows \<open>- 29\<close> to \<open>- 10\<close>, its side walls in the columns 9 and 20, and nothing
  occupied below the corridor.\<close>

lemma has_cell_cecum_map:
  "has_cell cecum_map (cx, cy) \<longleftrightarrow> - 50 \<le> cx \<and> cx < 50 \<and> - 50 \<le> cy \<and> cy < 50"
  by (auto simp: has_cell_def cecum_map_def)

lemma scale_cecum_map: "scale cecum_map = 1"
  by (simp add: cecum_map_def Map_Scale_def)

lemma map_cell_value_cecum_map:
  assumes "- 50 \<le> cx" "cx < 50" "- 50 \<le> cy" "cy < 50"
  shows "map_cell_value cecum_map (cx, cy)
           = Some (raster_value Cecum_Corridor_Map_Patch Patch_Scale (cx, cy))"
proof -
  define f where "f = (\<lambda>j i. raster_value Cecum_Corridor_Map_Patch Patch_Scale
                                      (int i - 50, int j - 50))"
  have y: "nat (cy + 50) < 100" and x: "nat (cx + 50) < 100"
    using assms by simp_all
  have h: "has_cell cecum_map (cx, cy)"
    using assms by (simp add: has_cell_cecum_map)
  have cs: "cells cecum_map = map (\<lambda>j. map (f j) [0 ..< 100]) [0 ..< 100]"
    by (simp add: cecum_map_def f_def)
  have ctr: "map_center_x cecum_map = 50" "map_center_y cecum_map = 50"
    by (simp_all add: cecum_map_def)
  have "map_cell_value cecum_map (cx, cy)
      = Some (map (\<lambda>j. map (f j) [0 ..< 100]) [0 ..< 100] ! nat (cy + 50) ! nat (cx + 50))"
    using h by (simp only: map_cell_value_def cs ctr fst_conv snd_conv if_True)
  also have "map (\<lambda>j. map (f j) [0 ..< 100]) [0 ..< 100] ! nat (cy + 50) ! nat (cx + 50)
      = f (nat (cy + 50)) (nat (cx + 50))"
    using x y by (simp only: nth_map length_upt nth_upt diff_zero add_0)
  also have "\<dots> = raster_value Cecum_Corridor_Map_Patch Patch_Scale (cx, cy)"
    using assms by (simp add: f_def)
  finally show ?thesis .
qed

lemma raster_value_corridor:
  assumes "10 \<le> cx" "cx \<le> 19" "- 29 \<le> cy" "cy \<le> - 10"
  shows "raster_value Cecum_Corridor_Map_Patch Patch_Scale (cx, cy) = 0"
proof -
  from assms have c: "nat cx div 10 = 1" by linarith
  from assms have "nat (- cy) div 10 = 1 \<or> nat (- cy) div 10 = 2" by linarith
  with c show ?thesis
    by (auto simp: raster_value_def Cecum_Corridor_Map_Patch_def Patch_Scale_def Let_def)
qed

lemma raster_value_west_wall:
  assumes "- 29 \<le> cy" "cy \<le> - 10"
  shows "raster_value Cecum_Corridor_Map_Patch Patch_Scale (9, cy) = 1"
proof -
  from assms have "nat (- cy) div 10 = 1 \<or> nat (- cy) div 10 = 2" by linarith
  then show ?thesis
    using assms by (auto simp: raster_value_def Cecum_Corridor_Map_Patch_def Patch_Scale_def Let_def)
qed

lemma raster_value_east_wall:
  assumes "- 29 \<le> cy" "cy \<le> - 10"
  shows "raster_value Cecum_Corridor_Map_Patch Patch_Scale (20, cy) = 1"
proof -
  from assms have "nat (- cy) div 10 = 1 \<or> nat (- cy) div 10 = 2" by linarith
  then show ?thesis
    using assms by (auto simp: raster_value_def Cecum_Corridor_Map_Patch_def Patch_Scale_def Let_def)
qed

lemma raster_value_below:
  assumes "cy < - 29"
  shows "raster_value Cecum_Corridor_Map_Patch Patch_Scale (cx, cy) = 0"
proof -
  from assms have "3 \<le> nat (- cy) div 10" by linarith
  then show ?thesis
    by (simp add: raster_value_def Cecum_Corridor_Map_Patch_def Patch_Scale_def Let_def)
qed

lemma cecum_free:
  assumes "10 \<le> cx" "cx \<le> 19" "- 29 \<le> cy" "cy \<le> - 10"
  shows "has_cell cecum_map (cx, cy) \<and> map_cell_value cecum_map (cx, cy) \<noteq> Some 1"
proof -
  from assms have "map_cell_value cecum_map (cx, cy) = Some 0"
    by (simp add: map_cell_value_cecum_map raster_value_corridor)
  with assms show ?thesis by (simp add: has_cell_cecum_map)
qed

lemma cecum_west_wall:
  "- 29 \<le> cy \<Longrightarrow> cy \<le> - 10 \<Longrightarrow> map_cell_value cecum_map (9, cy) = Some 1"
  by (simp add: map_cell_value_cecum_map raster_value_west_wall)

lemma cecum_east_wall:
  "- 29 \<le> cy \<Longrightarrow> cy \<le> - 10 \<Longrightarrow> map_cell_value cecum_map (20, cy) = Some 1"
  by (simp add: map_cell_value_cecum_map raster_value_east_wall)

lemma cecum_open_end:
  assumes "cy \<le> - 20"
  shows "map_cell_value cecum_map (15, cy) \<noteq> Some 1"
proof (cases "- 50 \<le> cy")
  case True
  show ?thesis
  proof (cases "- 29 \<le> cy")
    case True
    with assms show ?thesis
      by (simp add: map_cell_value_cecum_map raster_value_corridor)
  next
    case False
    with \<open>- 50 \<le> cy\<close> assms show ?thesis
      by (simp add: map_cell_value_cecum_map raster_value_below)
  qed
next
  case False
  then show ?thesis by (simp add: map_cell_value_def has_cell_cecum_map)
qed

text \<open>The rays from the centre of the corridor: up to an incidence of \<open>5 \<pi> / 16\<close> a ray
  reaches the side wall it points to; the ray straight down leaves the range.\<close>

lemma cecum_march_west:
  assumes "\<bar>a\<bar> \<le> 5 * pi / 16"
  shows "march cecum_map 15 (31 / 2, - 39 / 2) (- cos a, - sin a) (15, - 20) 0
           = Some (11 / 2 / cos a)"
proof -
  note b = incidence_bounds [OF assms]
  from b(1) have c: "0 < cos a" by simp
  define q where "q = sin a / cos a"
  have "\<bar>q\<bar> = \<bar>sin a\<bar> / cos a"
    using c by (simp add: q_def)
  also have "\<dots> \<le> 3 / 2"
    using b(2) c by (simp add: pos_divide_le_eq)
  finally have q: "\<bar>q\<bar> \<le> 3 / 2" .
  have e: "11 / 2 / cos a * - sin a = - (11 / 2) * q"
    by (simp add: q_def)
  show ?thesis
  proof (rule march_reach_west [where cw = 9 and ?c0.0 = 19 and rlo = "- 29" and rhi = "- 10"])
    show "0 < scale cecum_map" by (simp add: scale_cecum_map)
    show "fst (- cos a, - sin a) < 0" using c by simp
    show "11 / 2 / cos a
        = ((of_int 9 + 1) * scale cecum_map - fst (31 / 2 :: real, - 39 / 2 :: real))
            / fst (- cos a, - sin a)"
      using c by (simp add: scale_cecum_map divide_simps)
    show "11 / 2 / cos a \<le> 15"
      using b(1) c by (simp add: pos_divide_le_eq)
    show "snd (31 / 2 :: real, - 39 / 2 :: real) + 11 / 2 / cos a * snd (- cos a, - sin a)
        \<le> (of_int (- 10) + 1) * scale cecum_map"
      using q unfolding snd_conv e by (simp add: scale_cecum_map abs_real_def split: if_splits)
    show "of_int (- 29) * scale cecum_map
        \<le> snd (31 / 2 :: real, - 39 / 2 :: real) + 11 / 2 / cos a * snd (- cos a, - sin a)"
      using q unfolding snd_conv e by (simp add: scale_cecum_map abs_real_def split: if_splits)
    show "has_cell cecum_map (cx, cy) \<and> map_cell_value cecum_map (cx, cy) \<noteq> Some 1"
      if "9 < cx" "cx \<le> 19" "- 29 \<le> cy" "cy \<le> - 10" for cx cy
      using that by (intro cecum_free) simp_all
    show "map_cell_value cecum_map (9, cy) = Some 1" if "- 29 \<le> cy" "cy \<le> - 10" for cy
      using that by (rule cecum_west_wall)
    show "0 \<le> 11 / 2 / cos a" using c by simp
  qed simp_all
qed

lemma cecum_march_east:
  assumes "\<bar>a\<bar> \<le> 5 * pi / 16"
  shows "march cecum_map 15 (31 / 2, - 39 / 2) (cos a, sin a) (15, - 20) 0
           = Some (9 / 2 / cos a)"
proof -
  note b = incidence_bounds [OF assms]
  from b(1) have c: "0 < cos a" by simp
  define q where "q = sin a / cos a"
  have "\<bar>q\<bar> = \<bar>sin a\<bar> / cos a"
    using c by (simp add: q_def)
  also have "\<dots> \<le> 3 / 2"
    using b(2) c by (simp add: pos_divide_le_eq)
  finally have q: "\<bar>q\<bar> \<le> 3 / 2" .
  have e: "9 / 2 / cos a * sin a = 9 / 2 * q"
    by (simp add: q_def)
  show ?thesis
  proof (rule march_reach_east [where cw = 20 and ?c0.0 = 10 and rlo = "- 29" and rhi = "- 10"])
    show "0 < scale cecum_map" by (simp add: scale_cecum_map)
    show "0 < fst (cos a, sin a)" using c by simp
    show "9 / 2 / cos a
        = (of_int 20 * scale cecum_map - fst (31 / 2 :: real, - 39 / 2 :: real))
            / fst (cos a, sin a)"
      using c by (simp add: scale_cecum_map divide_simps)
    show "9 / 2 / cos a \<le> 15"
      using b(1) c by (simp add: pos_divide_le_eq)
    show "snd (31 / 2 :: real, - 39 / 2 :: real) + 9 / 2 / cos a * snd (cos a, sin a)
        \<le> (of_int (- 10) + 1) * scale cecum_map"
      using q unfolding snd_conv e by (simp add: scale_cecum_map abs_real_def split: if_splits)
    show "of_int (- 29) * scale cecum_map
        \<le> snd (31 / 2 :: real, - 39 / 2 :: real) + 9 / 2 / cos a * snd (cos a, sin a)"
      using q unfolding snd_conv e by (simp add: scale_cecum_map abs_real_def split: if_splits)
    show "has_cell cecum_map (cx, cy) \<and> map_cell_value cecum_map (cx, cy) \<noteq> Some 1"
      if "10 \<le> cx" "cx < 20" "- 29 \<le> cy" "cy \<le> - 10" for cx cy
      using that by (intro cecum_free) simp_all
    show "map_cell_value cecum_map (20, cy) = Some 1" if "- 29 \<le> cy" "cy \<le> - 10" for cy
      using that by (rule cecum_east_wall)
    show "0 \<le> 9 / 2 / cos a" using c by simp
  qed simp_all
qed

lemma cecum_march_down:
  "march cecum_map 15 (31 / 2, - 39 / 2) (0, - 1) (15, - 20) 0 = None"
  by (rule march_miss_south) (simp_all add: cecum_open_end)

lemma cecum_start_cell:
  "world_to_cell cecum_map (rp_x cecumCenter_rpose) (rp_y cecumCenter_rpose) = (15, - 20)"
proof -
  have "\<lfloor>31 / 2 :: real\<rfloor> = 15" "\<lfloor>- (39 / 2) :: real\<rfloor> = - 20"
    by (simp_all add: floor_eq_iff)
  then show ?thesis
    by (simp add: world_to_cell_def cecumCenter_rpose_eq scale_cecum_map)
qed

lemma normalize_angle_id: "- pi \<le> a \<Longrightarrow> a < pi \<Longrightarrow> normalize_angle a = a"
proof -
  assume a: "- pi \<le> a" "a < pi"
  have "\<lfloor>(a + pi) / (2 * pi)\<rfloor> = 0"
  proof (rule floor_unique)
    show "of_int 0 \<le> (a + pi) / (2 * pi)" using a by simp
    show "(a + pi) / (2 * pi) < of_int 0 + 1" using a pi_gt_zero by (simp add: divide_simps)
  qed
  then show ?thesis by (simp add: normalize_angle_def)
qed

lemma cast_beam_cecum_west:
  assumes "\<bar>a\<bar> \<le> 5 * pi / 16" and b: "b = a - pi / 2"
  shows "cast_beam cecum_map cecumCenter_params cecumCenter_rpose b
     = [\<lparr> sp_range = wall_distance cecum_map cecumCenter_rpose West 9
                       / cos (rp_theta cecumCenter_rpose + b - normal_angle West),
          sp_angle = b, sp_is_occupied = True \<rparr>]"
proof -
  have th: "rp_theta cecumCenter_rpose + b = a - pi"
    by (simp add: cecumCenter_rpose_eq b)
  have d: "cos (a - pi) = - cos a" "sin (a - pi) = - sin a"
    by (simp_all add: cos_diff sin_diff)
  have i: "cos (rp_theta cecumCenter_rpose + b - normal_angle West) = cos a"
    unfolding th by (simp add: cos_diff)
  have w: "wall_distance cecum_map cecumCenter_rpose West 9 = 11 / 2"
    by (simp add: cecumCenter_rpose_eq scale_cecum_map)
  from assms(1) pi_gt_zero have "- pi \<le> b" "b < pi" unfolding b by linarith+
  then have n: "normalize_angle b = b" by (rule normalize_angle_id)
  have p: "rp_x cecumCenter_rpose = 31 / 2" "rp_y cecumCenter_rpose = - 39 / 2"
    "max_range cecumCenter_params = 15"
    by (simp_all add: cecumCenter_rpose_eq cecumCenter_params_def)
  have m: "march cecum_map (max_range cecumCenter_params)
             (rp_x cecumCenter_rpose, rp_y cecumCenter_rpose)
             (cos (rp_theta cecumCenter_rpose + b), sin (rp_theta cecumCenter_rpose + b))
             (world_to_cell cecum_map (rp_x cecumCenter_rpose) (rp_y cecumCenter_rpose)) 0
           = Some (11 / 2 / cos a)"
    unfolding cecum_start_cell unfolding th d p by (rule cecum_march_west [OF assms(1)])
  show ?thesis
    unfolding cast_beam_def m i w n by simp
qed

lemma cast_beam_cecum_east:
  assumes "\<bar>a\<bar> \<le> 5 * pi / 16" and b: "b = a + pi / 2"
  shows "cast_beam cecum_map cecumCenter_params cecumCenter_rpose b
     = [\<lparr> sp_range = wall_distance cecum_map cecumCenter_rpose East 20
                       / cos (rp_theta cecumCenter_rpose + b - normal_angle East),
          sp_angle = b, sp_is_occupied = True \<rparr>]"
proof -
  have th: "rp_theta cecumCenter_rpose + b = a"
    by (simp add: cecumCenter_rpose_eq b)
  have i: "cos (rp_theta cecumCenter_rpose + b - normal_angle East) = cos a"
    unfolding th by simp
  have w: "wall_distance cecum_map cecumCenter_rpose East 20 = 9 / 2"
    by (simp add: cecumCenter_rpose_eq scale_cecum_map)
  from assms(1) pi_gt_zero have "- pi \<le> b" "b < pi" unfolding b by linarith+
  then have n: "normalize_angle b = b" by (rule normalize_angle_id)
  have p: "rp_x cecumCenter_rpose = 31 / 2" "rp_y cecumCenter_rpose = - 39 / 2"
    "max_range cecumCenter_params = 15"
    by (simp_all add: cecumCenter_rpose_eq cecumCenter_params_def)
  have m: "march cecum_map (max_range cecumCenter_params)
             (rp_x cecumCenter_rpose, rp_y cecumCenter_rpose)
             (cos (rp_theta cecumCenter_rpose + b), sin (rp_theta cecumCenter_rpose + b))
             (world_to_cell cecum_map (rp_x cecumCenter_rpose) (rp_y cecumCenter_rpose)) 0
           = Some (9 / 2 / cos a)"
    unfolding cecum_start_cell unfolding th p by (rule cecum_march_east [OF assms(1)])
  show ?thesis
    unfolding cast_beam_def m i w n by simp
qed

lemma cast_beam_cecum_down:
  "cast_beam cecum_map cecumCenter_params cecumCenter_rpose (deg2rad 0) = []"
proof -
  have th: "rp_theta cecumCenter_rpose + deg2rad 0 = - (pi / 2)"
    by (simp add: cecumCenter_rpose_eq deg2rad_def)
  have p: "rp_x cecumCenter_rpose = 31 / 2" "rp_y cecumCenter_rpose = - 39 / 2"
    "max_range cecumCenter_params = 15"
    by (simp_all add: cecumCenter_rpose_eq cecumCenter_params_def)
  have cs: "cos (- (pi / 2)) = 0" "sin (- (pi / 2)) = - 1"
    by simp_all
  have m: "march cecum_map (max_range cecumCenter_params)
             (rp_x cecumCenter_rpose, rp_y cecumCenter_rpose)
             (cos (rp_theta cecumCenter_rpose + deg2rad 0),
              sin (rp_theta cecumCenter_rpose + deg2rad 0))
             (world_to_cell cecum_map (rp_x cecumCenter_rpose) (rp_y cecumCenter_rpose)) 0
           = None"
    unfolding cecum_start_cell unfolding th cs p by (rule cecum_march_down)
  show ?thesis
    unfolding cast_beam_def m by simp
qed

lemma beam_angles_cecumCenter:
  "beam_angles cecumCenter_params
     = [deg2rad (- 135), deg2rad (- 405 / 4), deg2rad (- 135 / 2), deg2rad (- 135 / 4),
        deg2rad 0, deg2rad (135 / 4), deg2rad (135 / 2), deg2rad (405 / 4)]"
proof -
  have "2 * max_angle cecumCenter_params / angle_step cecumCenter_params = 8"
    by (simp add: cecumCenter_params_def deg2rad_def)
  then have "nat \<lceil>2 * max_angle cecumCenter_params / angle_step cecumCenter_params\<rceil> = 8" by simp
  then have "beam_angles cecumCenter_params
      = map (\<lambda>k. - max_angle cecumCenter_params + real k * angle_step cecumCenter_params) [0 ..< 8]"
    by (simp only: beam_angles_def)
  also have "[0 ..< 8] = [0, 1, 2, 3, 4, 5, 6, 7 :: nat]"
    by (simp add: upt_rec)
  finally show ?thesis
    by (simp add: cecumCenter_params_def deg2rad_def)
qed

text \<open>
  Claim C1. On the map of the corridor patch, scaled by 10 in a map of 100 by 100 cells
  at scale 1, \<open>generate_2D_laser_scan\<close> for the sensor with 8 beams over 270 degrees
  (step 33.75 degrees), at the centre of the corridor and facing down, returns exactly
  7 scan points: every beam but the one at the relative angle 0 registers a hit, and
  the range of each hit is the perpendicular distance from the sensor to the side wall
  it strikes (the column 9 in the west, the column 20 in the east) divided by the cosine
  of the beam's incidence angle.
\<close>

theorem cecumCenter_seven_hits:
  "generate_2D_laser_scan cecumCenter_params cecum_map cecumCenter_rpose 1
     = map (\<lambda>(b, side, k).
              \<lparr> sp_range = wall_distance cecum_map cecumCenter_rpose side k
                             / cos (rp_theta cecumCenter_rpose + b - normal_angle side),
                sp_angle = b, sp_is_occupied = True \<rparr>)
         [(deg2rad (- 135), West, 9), (deg2rad (- 405 / 4), West, 9),
          (deg2rad (- 135 / 2), West, 9), (deg2rad (- 135 / 4), West, 9),
          (deg2rad (135 / 4), East, 20), (deg2rad (135 / 2), East, 20),
          (deg2rad (405 / 4), East, 20)]
   \<and> length (generate_2D_laser_scan cecumCenter_params cecum_map cecumCenter_rpose 1) = 7
   \<and> beam_angles cecumCenter_params
       = [deg2rad (- 135), deg2rad (- 405 / 4), deg2rad (- 135 / 2), deg2rad (- 135 / 4),
          deg2rad 0, deg2rad (135 / 4), deg2rad (135 / 2), deg2rad (405 / 4)]
   \<and> cast_beam cecum_map cecumCenter_params cecumCenter_rpose (deg2rad 0) = []"
proof -
  have w: "cast_beam cecum_map cecumCenter_params cecumCenter_rpose b
     = [\<lparr> sp_range = wall_distance cecum_map cecumCenter_rpose West 9
                       / cos (rp_theta cecumCenter_rpose + b - normal_angle West),
          sp_angle = b, sp_is_occupied = True \<rparr>]"
    if "\<bar>b + pi / 2\<bar> \<le> 5 * pi / 16" for b
    using that by (intro cast_beam_cecum_west [where a = "b + pi / 2"]) simp_all
  have e: "cast_beam cecum_map cecumCenter_params cecumCenter_rpose b
     = [\<lparr> sp_range = wall_distance cecum_map cecumCenter_rpose East 20
                       / cos (rp_theta cecumCenter_rpose + b - normal_angle East),
          sp_angle = b, sp_is_occupied = True \<rparr>]"
    if "\<bar>b - pi / 2\<bar> \<le> 5 * pi / 16" for b
    using that by (intro cast_beam_cecum_east [where a = "b - pi / 2"]) simp_all
  have w0: "\<bar>deg2rad (- 135) + pi / 2\<bar> \<le> 5 * pi / 16"
    and w1: "\<bar>deg2rad (- 405 / 4) + pi / 2\<bar> \<le> 5 * pi / 16"
    and w2: "\<bar>deg2rad (- 135 / 2) + pi / 2\<bar> \<le> 5 * pi / 16"
    and w3: "\<bar>deg2rad (- 135 / 4) + pi / 2\<bar> \<le> 5 * pi / 16"
    and e5: "\<bar>deg2rad (135 / 4) - pi / 2\<bar> \<le> 5 * pi / 16"
    and e6: "\<bar>deg2rad (135 / 2) - pi / 2\<bar> \<le> 5 * pi / 16"
    and e7: "\<bar>deg2rad (405 / 4) - pi / 2\<bar> \<le> 5 * pi / 16"
    using pi_gt_zero by (simp_all add: deg2rad_def abs_real_def)
  have scan: "generate_2D_laser_scan cecumCenter_params cecum_map cecumCenter_rpose 1
     = map (\<lambda>(b, side, k).
              \<lparr> sp_range = wall_distance cecum_map cecumCenter_rpose side k
                             / cos (rp_theta cecumCenter_rpose + b - normal_angle side),
                sp_angle = b, sp_is_occupied = True \<rparr>)
         [(deg2rad (- 135), West, 9), (deg2rad (- 405 / 4), West, 9),
          (deg2rad (- 135 / 2), West, 9), (deg2rad (- 135 / 4), West, 9),
          (deg2rad (135 / 4), East, 20), (deg2rad (135 / 2), East, 20),
          (deg2rad (405 / 4), East, 20)]"
    unfolding generate_2D_laser_scan_def beam_angles_cecumCenter
    by (simp only: list.map concat.simps append_Cons append_Nil case_prod_conv
        w [OF w0] w [OF w1] w [OF w2] w [OF w3] e [OF e5] e [OF e6] e [OF e7]
        cast_beam_cecum_down)
  then have "length (generate_2D_laser_scan cecumCenter_params cecum_map cecumCenter_rpose 1) = 7"
    by simp
  with scan beam_angles_cecumCenter cast_beam_cecum_down show ?thesis
    by blast
qed

section \<open>Properties of the generator's test\<close>

text \<open>A scan point passes \<open>check_scan_point\<close> against itself.\<close>

lemma ASSERT_NEAR_same: "dle (Fin 0) e \<Longrightarrow> ASSERT_NEAR (Fin a) (Fin a) e"
  by (simp add: ASSERT_NEAR_def)

lemma dle_0_round_pos: "0 \<le> x \<Longrightarrow> dle (Fin 0) (round_pos x)"
  using round_val_nonneg [of x] by (simp add: round_pos_def)

lemma dle_0_dabs_ddiv: "e \<noteq> 0 \<Longrightarrow> dle (Fin 0) (dabs (ddiv (Fin e) (Fin c)))"
  by (simp add: dabs_rnd dle_0_round_pos)

lemma check_scan_point_same:
  "sp_range sp_err \<noteq> 0 \<Longrightarrow> 0 \<le> sp_angle sp_err \<Longrightarrow> check_scan_point rpose a a sp_err"
  unfolding check_scan_point_def
  by (intro conjI ASSERT_NEAR_same dle_0_dabs_ddiv) simp_all

text \<open>
  The modelled generator against the test \<open>insideObstacle4beams\<close>: on any map whose
  cell at the fixture's pose has the value 1 it returns the four scan points that the
  test expects, and the test passes.
\<close>

lemma beam_angles_lsg: "beam_angles lsg = [- pi, - pi / 2, 0, pi / 2]"
proof -
  have "2 * max_angle lsg / angle_step lsg = 4"
    by (simp add: lsg_def deg2rad_def)
  then have "nat \<lceil>2 * max_angle lsg / angle_step lsg\<rceil> = 4" by simp
  then have "beam_angles lsg = map (\<lambda>k. - max_angle lsg + real k * angle_step lsg) [0 ..< 4]"
    by (simp only: beam_angles_def)
  also have "[0 ..< 4] = [0, 1, 2, 3 :: nat]"
    by (simp add: upt_rec)
  finally show ?thesis
    by (simp add: lsg_def deg2rad_def)
qed

lemma insideObstacle4beams_passes:
  assumes "map_cell_value m (world_to_cell m (rp_x fixture_rpose) (rp_y fixture_rpose)) = Some 1"
  shows "insideObstacle4beams (\<lambda>p pose step. generate_2D_laser_scan p m pose step) (map_at_vec_of m)"
proof -
  have r: "0 \<le> max_range lsg" by (simp add: lsg_def)
  have "generate_2D_laser_scan lsg m fixture_rpose 1
      = map (\<lambda>b. \<lparr> sp_range = 0, sp_angle = normalize_angle b, sp_is_occupied = True \<rparr>)
          (beam_angles lsg)"
    unfolding generate_2D_laser_scan_def
    by (rule concat_singletons) (rule cast_beam_inside [OF assms r])
  also have "\<dots> = [make_ScanPoint 0 (- pi), make_ScanPoint 0 (- pi / 2), make_ScanPoint 0 0,
      make_ScanPoint 0 (pi / 2)]"
  proof -
    have "normalize_angle (- pi) = - pi" "normalize_angle (- (pi / 2)) = - (pi / 2)"
      "normalize_angle 0 = 0" "normalize_angle (pi / 2) = pi / 2"
      by (rule normalize_angle_id; use pi_gt_zero in linarith)+
    then show ?thesis
      by (simp add: beam_angles_lsg make_ScanPoint_def)
  qed
  also have "\<dots> = insideObstacle_Expected_SPs"
    by (simp add: insideObstacle_Expected_SPs_def deg2rad_def)
  finally have scan: "generate_2D_laser_scan lsg m fixture_rpose 1 = insideObstacle_Expected_SPs" .
  have occ: "map_at_vec_of m (rp_x fixture_rpose) (rp_y fixture_rpose) 0 a = 1" for a
    using assms by (simp add: map_at_vec_of_def)
  have "list_all
          (\<lambda>(e, a). check_scan_point fixture_rpose e a (make_ScanPoint (Map_Scale / 2) (1 / 1000))
             \<and> ASSERT_NEAR (Fin (if sp_is_occupied a then 1 else 0))
                  (Fin (map_at_vec_of m (rp_x fixture_rpose) (rp_y fixture_rpose) (sp_range a)
                          (rp_theta fixture_rpose + sp_angle a)))
                  (Fin (1 / 100)))
          (zip insideObstacle_Expected_SPs insideObstacle_Expected_SPs)"
    by (simp add: insideObstacle_Expected_SPs_def check_scan_point_same make_ScanPoint_def
        Map_Scale_def occ ASSERT_NEAR_same)
  then show ?thesis
    by (simp add: insideObstacle4beams_def scan check_scan_points_def)
qed

end
